theory Spec2Isabelle
  imports Main
begin

section \<open>The storage-availability monitor \<open>useStorageCheck\<close>\<close>

text \<open>
  The hook \<open>useStorageCheck\<close> (src/hooks/useStorageCheck.ts) keeps one piece of React
  state, the storage status, and one effect. Every run of the effect creates an
  AbortController, the closure \<open>checkStorage\<close> and, when periodic checking is enabled, an
  interval timer; the cleanup of the effect aborts the controller and clears the timer.
  \<open>checkStorage\<close> is an async function with two suspension points.

  The embedding is a transition system. Its state holds what the hook and its runtime
  hold: the React state, one record per effect run (a \<^emph>\<open>session\<close>: the captured
  dependencies, the controller's flag and the timer id), the suspended invocations of
  \<open>checkStorage\<close>, the interval timers of the runtime and a millisecond clock. Its events
  are what the environment does: a render with given arguments, the unmount, one
  millisecond of time, and the settlement of a promise that a suspended invocation is
  waiting for. Four logs record what happened (invocations of \<open>checkStorage\<close>, calls of
  the two oracles, calls of \<open>setStorageStatus\<close>, calls of \<open>console.error\<close>); no
  transition reads them.

  The two oracles, \<open>hasEnoughSpace\<close> (src/utils) and \<open>DeviceInfo.getFreeDiskStorage\<close>
  (react-native-device-info), belong to the environment: a call is logged, and the promise
  it returned is fulfilled or rejected by an event, at any later time or never. The
  formatter \<open>formatBytes\<close> (src/utils) is a parameter of the transitions. Sessions and
  suspended invocations are numbered in the order of their creation.
\<close>

subsection \<open>Data\<close>

text \<open>
  Modelled from the spec: the types \<open>Model\<close> and \<open>ModelOrigin\<close> are declared in
  src/utils/types, which is not among the sources. The hook reads the four fields below;
  \<open>sizeBytes\<close> is the field \<open>size\<close> of the source (the spec's name is used because
  \<open>size\<close> is a constant of HOL). \<open>REMOTE\<close> stands for every origin other than \<open>LOCAL\<close>.
\<close>

datatype ModelOrigin = LOCAL | REMOTE

record Model =
  isDownloaded :: bool
  isLocal :: bool
  origin :: ModelOrigin
  sizeBytes :: nat

record StorageStatus =
  isOk :: bool
  message :: string

text \<open>Both options may be absent (\<open>undefined\<close>); the destructuring supplies the defaults.\<close>

record StorageCheckOptions =
  enablePeriodicCheck :: "bool option"
  checkInterval :: "nat option"

text \<open>
  One run of the effect. \<open>s_model\<close>, \<open>s_periodic\<close> and \<open>s_interval\<close> are the values
  captured by the closure, which are also the dependency array of the effect;
  \<open>aborted\<close> is \<open>abortController.signal.aborted\<close>; \<open>intervalId\<close> is the variable of that
  name (\<open>None\<close> for \<open>undefined\<close>).
\<close>

record CheckSession =
  s_model :: Model
  s_periodic :: bool
  s_interval :: nat
  aborted :: bool
  intervalId :: "nat option"

text \<open>The await at which an invocation of \<open>checkStorage\<close> is suspended.\<close>

datatype stage = AwaitHasEnoughSpace | AwaitFreeDisk

record cycle =
  c_id :: nat
  c_sid :: nat
  c_stage :: stage

text \<open>An interval timer of the runtime: its id, the session whose \<open>checkStorage\<close> it calls,
  its period and the time of its next firing.\<close>

record timer =
  t_id :: nat
  t_sid :: nat
  t_period :: nat
  t_due :: nat

datatype call = HasEnoughSpace Model | GetFreeDiskStorage string

datatype error = SpaceCheckFailure | FreeSpaceQueryFailure

datatype 'a settlement = Fulfilled 'a | Rejected

record state =
  storageStatus :: StorageStatus
  sessions :: "nat \<Rightarrow> CheckSession option"
  next_sid :: nat
  current :: "nat option"
  unmounted :: bool
  pending :: "cycle list"
  next_cid :: nat
  timers :: "timer list"
  next_timer :: nat
  now :: nat
  checks :: "nat list"
  calls :: "(nat \<times> call) list"
  emits :: "(nat \<times> StorageStatus) list"
  console :: "(nat \<times> error) list"
  unhandled :: "(nat \<times> error) list"

datatype event =
    Render Model StorageCheckOptions
  | Unmount
  | Tick
  | HasEnoughSpaceSettled nat "bool settlement"
  | FreeDiskSettled nat "nat settlement"

text \<open>\<open>useState({isOk: true, message: ''})\<close>, and a runtime that has handed out no timer
  yet; timer ids start at 1, as those of \<open>setInterval\<close> do.\<close>

definition initialStatus :: StorageStatus where
  "initialStatus = \<lparr>isOk = True, message = ''''\<rparr>"

definition init :: state where
  "init = \<lparr>storageStatus = initialStatus, sessions = (\<lambda>_. None), next_sid = 0,
     current = None, unmounted = False, pending = [], next_cid = 0, timers = [],
     next_timer = 1, now = 0, checks = [], calls = [], emits = [], console = [],
     unhandled = []\<rparr>"

subsection \<open>\<open>checkStorage\<close>\<close>

definition setStorageStatus :: "nat \<Rightarrow> StorageStatus \<Rightarrow> state \<Rightarrow> state" where
  "setStorageStatus sid st s = s\<lparr>storageStatus := st, emits := emits s @ [(sid, st)]\<rparr>"

definition signal_aborted :: "state \<Rightarrow> nat \<Rightarrow> bool" where
  "signal_aborted s sid = (case sessions s sid of None \<Rightarrow> False | Some se \<Rightarrow> aborted se)"

definition needs_no_check :: "Model \<Rightarrow> bool" where
  "needs_no_check m = (isDownloaded m \<or> isLocal m \<or> origin m = LOCAL)"

text \<open>
  A call of \<open>checkStorage\<close> by session \<open>sid\<close>, up to its first await (lines 39 to 49): it
  returns at once for a model that needs no check, and otherwise calls \<open>hasEnoughSpace\<close>
  and suspends.
\<close>

definition checkStorage :: "nat \<Rightarrow> state \<Rightarrow> state" where
  "checkStorage sid s =
     (case sessions s sid of
        None \<Rightarrow> s
      | Some se \<Rightarrow>
          let s1 = s\<lparr>checks := checks s @ [sid]\<rparr> in
          if needs_no_check (s_model se) then s1
          else s1\<lparr>calls := calls s1 @ [(sid, HasEnoughSpace (s_model se))],
                  pending := pending s1 @
                    [\<lparr>c_id = next_cid s1, c_sid = sid, c_stage = AwaitHasEnoughSpace\<rparr>],
                  next_cid := Suc (next_cid s1)\<rparr>)"

text \<open>
  The rest of the \<open>try\<close> block after \<open>await hasEnoughSpace(model)\<close> has settled (lines 49
  to 71). A rejected promise makes the await throw.
\<close>

definition statusOk :: StorageStatus where
  "statusOk = \<lparr>isOk = True, message = ''''\<rparr>"

definition statusLow :: "(nat \<Rightarrow> string) \<Rightarrow> Model \<Rightarrow> nat \<Rightarrow> StorageStatus" where
  "statusLow formatBytes m freeDisk =
     \<lparr>isOk = False,
      message = ''Storage low! Model '' @ formatBytes (sizeBytes m) @ '' > '' @
                formatBytes freeDisk @ '' free''\<rparr>"

definition statusFailed :: StorageStatus where
  "statusFailed = \<lparr>isOk = False, message = ''Failed to check storage''\<rparr>"

definition after_hasEnoughSpace :: "cycle \<Rightarrow> bool settlement \<Rightarrow> state \<Rightarrow> error + state" where
  "after_hasEnoughSpace c r s =
     (case r of
        Rejected \<Rightarrow> Inl SpaceCheckFailure
      | Fulfilled isEnoughSpace \<Rightarrow>
          if signal_aborted s (c_sid c) then Inr s
          else if \<not> isEnoughSpace then
            Inr (s\<lparr>calls := calls s @ [(c_sid c, GetFreeDiskStorage ''important'')],
                   pending := pending s @ [c\<lparr>c_stage := AwaitFreeDisk\<rparr>]\<rparr>)
          else Inr (setStorageStatus (c_sid c) statusOk s))"

text \<open>The rest of the \<open>try\<close> block after \<open>await DeviceInfo.getFreeDiskStorage('important')\<close>
  has settled (lines 55 to 65).\<close>

definition after_getFreeDiskStorage ::
  "(nat \<Rightarrow> string) \<Rightarrow> cycle \<Rightarrow> nat settlement \<Rightarrow> state \<Rightarrow> error + state" where
  "after_getFreeDiskStorage formatBytes c r s =
     (case r of
        Rejected \<Rightarrow> Inl FreeSpaceQueryFailure
      | Fulfilled freeDisk \<Rightarrow>
          if signal_aborted s (c_sid c) then Inr s
          else (case sessions s (c_sid c) of
                  None \<Rightarrow> Inr s
                | Some se \<Rightarrow>
                    Inr (setStorageStatus (c_sid c)
                           (statusLow formatBytes (s_model se) freeDisk) s)))"

text \<open>The \<open>catch\<close> block (lines 72 to 77).\<close>

definition catch_block :: "cycle \<Rightarrow> error \<Rightarrow> state \<Rightarrow> state" where
  "catch_block c e s =
     (if \<not> signal_aborted s (c_sid c)
      then setStorageStatus (c_sid c) statusFailed
             (s\<lparr>console := console s @ [(c_sid c, e)]\<rparr>)
      else s)"

text \<open>
  \<open>try { ... } catch (error) { ... }\<close>: the result of the async function once it is resumed.
  \<open>Inl\<close> would be a rejection of the promise that \<open>checkStorage\<close> returned, which no
  caller handles.
\<close>

definition try_catch :: "error + state \<Rightarrow> cycle \<Rightarrow> state \<Rightarrow> error + state" where
  "try_catch body c s = (case body of Inl e \<Rightarrow> Inr (catch_block c e s) | Inr s' \<Rightarrow> Inr s')"

definition resume_hasEnoughSpace :: "cycle \<Rightarrow> bool settlement \<Rightarrow> state \<Rightarrow> error + state" where
  "resume_hasEnoughSpace c r s = try_catch (after_hasEnoughSpace c r s) c s"

definition resume_getFreeDiskStorage ::
  "(nat \<Rightarrow> string) \<Rightarrow> cycle \<Rightarrow> nat settlement \<Rightarrow> state \<Rightarrow> error + state" where
  "resume_getFreeDiskStorage formatBytes c r s =
     try_catch (after_getFreeDiskStorage formatBytes c r s) c s"

text \<open>
  The event loop resumes the invocation \<open>k\<close> when the promise it awaits settles. Nothing
  happens when no invocation \<open>k\<close> is suspended at that await. A rejection of the promise
  of \<open>checkStorage\<close> itself would go unhandled, since the effect and the timer drop that
  promise; \<open>finish\<close> records it.
\<close>

definition unsuspend :: "nat \<Rightarrow> state \<Rightarrow> state" where
  "unsuspend k s = s\<lparr>pending := filter (\<lambda>c. c_id c \<noteq> k) (pending s)\<rparr>"

definition finish :: "cycle \<Rightarrow> state \<Rightarrow> error + state \<Rightarrow> state" where
  "finish c s0 res =
     (case res of
        Inr s' \<Rightarrow> s'
      | Inl e \<Rightarrow> s0\<lparr>unhandled := unhandled s0 @ [(c_sid c, e)]\<rparr>)"

definition settle_hasEnoughSpace :: "nat \<Rightarrow> bool settlement \<Rightarrow> state \<Rightarrow> state" where
  "settle_hasEnoughSpace k r s =
     (case find (\<lambda>c. c_id c = k) (pending s) of
        None \<Rightarrow> s
      | Some c \<Rightarrow>
          if c_stage c = AwaitHasEnoughSpace
          then finish c (unsuspend k s) (resume_hasEnoughSpace c r (unsuspend k s))
          else s)"

definition settle_getFreeDiskStorage ::
  "(nat \<Rightarrow> string) \<Rightarrow> nat \<Rightarrow> nat settlement \<Rightarrow> state \<Rightarrow> state" where
  "settle_getFreeDiskStorage formatBytes k r s =
     (case find (\<lambda>c. c_id c = k) (pending s) of
        None \<Rightarrow> s
      | Some c \<Rightarrow>
          if c_stage c = AwaitFreeDisk
          then finish c (unsuspend k s)
                 (resume_getFreeDiskStorage formatBytes c r (unsuspend k s))
          else s)"

subsection \<open>The effect\<close>

text \<open>
  The cleanup returned by the effect (lines 86 to 91): abort, then clear the interval
  when \<open>intervalId\<close> is truthy (an id that is a number is truthy unless it is 0).
\<close>

definition cleanup :: "nat \<Rightarrow> state \<Rightarrow> state" where
  "cleanup sid s =
     (case sessions s sid of
        None \<Rightarrow> s
      | Some se \<Rightarrow>
          let s1 = s\<lparr>sessions := (sessions s)(sid \<mapsto> se\<lparr>aborted := True\<rparr>)\<rparr> in
          (case intervalId se of
             None \<Rightarrow> s1
           | Some i \<Rightarrow>
               if i \<noteq> 0 then s1\<lparr>timers := filter (\<lambda>t. t_id t \<noteq> i) (timers s1)\<rparr>
               else s1))"

text \<open>
  The body of the effect (lines 37 to 84): a new controller, the immediate call of
  \<open>checkStorage\<close>, then \<open>setInterval\<close> when periodic checking is enabled. The runtime
  treats a delay below 1 ms as 1 ms.
\<close>

definition effect :: "Model \<Rightarrow> bool \<Rightarrow> nat \<Rightarrow> state \<Rightarrow> state" where
  "effect m per iv s =
     (let sid = next_sid s;
          se = \<lparr>s_model = m, s_periodic = per, s_interval = iv, aborted = False,
                intervalId = None\<rparr>;
          s1 = s\<lparr>sessions := (sessions s)(sid \<mapsto> se), next_sid := Suc sid,
                 current := Some sid\<rparr>;
          s2 = checkStorage sid s1
      in if per
         then s2\<lparr>timers := timers s2 @
                    [\<lparr>t_id = next_timer s2, t_sid = sid, t_period = iv,
                      t_due = now s2 + max 1 iv\<rparr>],
                 next_timer := Suc (next_timer s2),
                 sessions := (sessions s2)(sid \<mapsto> se\<lparr>intervalId := Some (next_timer s2)\<rparr>)\<rparr>
         else s2)"

text \<open>
  A render of the component that uses the hook, together with the flush of its effects:
  the first render runs the effect; a later one runs the cleanup and the effect again
  when a dependency (\<open>model\<close>, \<open>enablePeriodicCheck\<close>, \<open>checkInterval\<close>) differs from the
  one of the last run. Descriptors are immutable values here, so the comparison of the
  dependency array is equality.
\<close>

definition render :: "Model \<Rightarrow> StorageCheckOptions \<Rightarrow> state \<Rightarrow> state" where
  "render m opts s =
     (if unmounted s then s
      else
        let per = (case enablePeriodicCheck opts of None \<Rightarrow> True | Some b \<Rightarrow> b);
            iv = (case checkInterval opts of None \<Rightarrow> 10000 | Some n \<Rightarrow> n)
        in case current s of
             None \<Rightarrow> effect m per iv s
           | Some sid \<Rightarrow>
               (case sessions s sid of
                  None \<Rightarrow> s
                | Some se \<Rightarrow>
                    if s_model se = m \<and> s_periodic se = per \<and> s_interval se = iv then s
                    else effect m per iv (cleanup sid s)))"

definition unmount :: "state \<Rightarrow> state" where
  "unmount s =
     (if unmounted s then s
      else case current s of
             None \<Rightarrow> s\<lparr>unmounted := True\<rparr>
           | Some sid \<Rightarrow> (cleanup sid s)\<lparr>current := None, unmounted := True\<rparr>)"

subsection \<open>Time\<close>

text \<open>One millisecond passes: every interval timer that is due calls its \<open>checkStorage\<close>
  and is due again one period later. The clock is exact: a timer set at time \<open>t\<close> with
  period \<open>p\<close> fires at \<open>t + p\<close>, \<open>t + 2 p\<close>, and so on.\<close>

definition reschedule :: "nat \<Rightarrow> timer \<Rightarrow> timer" where
  "reschedule t x = (if t_due x \<le> t then x\<lparr>t_due := t + max 1 (t_period x)\<rparr> else x)"

definition tick :: "state \<Rightarrow> state" where
  "tick s =
     (let t = Suc (now s);
          due = filter (\<lambda>x. t_due x \<le> t) (timers s)
      in fold (\<lambda>x. checkStorage (t_sid x)) due
           (s\<lparr>now := t, timers := map (reschedule t) (timers s)\<rparr>))"

subsection \<open>Runs\<close>

fun step :: "(nat \<Rightarrow> string) \<Rightarrow> event \<Rightarrow> state \<Rightarrow> state" where
  "step formatBytes (Render m opts) s = render m opts s"
| "step formatBytes Unmount s = unmount s"
| "step formatBytes Tick s = tick s"
| "step formatBytes (HasEnoughSpaceSettled k r) s = settle_hasEnoughSpace k r s"
| "step formatBytes (FreeDiskSettled k r) s = settle_getFreeDiskStorage formatBytes k r s"

definition run :: "(nat \<Rightarrow> string) \<Rightarrow> event list \<Rightarrow> state \<Rightarrow> state" where
  "run formatBytes es s = fold (step formatBytes) es s"

section \<open>Properties and invariants\<close>

subsection \<open>Readings of the logs\<close>

text \<open>The number of check cycles (invocations of \<open>checkStorage\<close>) of a session, the checks
  of a session that are in flight, and the status updates and the queries of a session.\<close>

definition nchecks :: "nat \<Rightarrow> state \<Rightarrow> nat" where
  "nchecks sid s = length (filter (\<lambda>x. x = sid) (checks s))"

definition inflight :: "nat \<Rightarrow> state \<Rightarrow> cycle list" where
  "inflight sid s = filter (\<lambda>c. c_sid c = sid) (pending s)"

definition emits_of :: "nat \<Rightarrow> state \<Rightarrow> (nat \<times> StorageStatus) list" where
  "emits_of sid s = filter (\<lambda>x. fst x = sid) (emits s)"

definition calls_of :: "nat \<Rightarrow> state \<Rightarrow> (nat \<times> call) list" where
  "calls_of sid s = filter (\<lambda>x. fst x = sid) (calls s)"

text \<open>The number of calls of \<open>getFreeDiskStorage\<close> so far.\<close>

definition is_free_query :: "call \<Rightarrow> bool" where
  "is_free_query q = (case q of GetFreeDiskStorage _ \<Rightarrow> True | HasEnoughSpace _ \<Rightarrow> False)"

definition nfree :: "state \<Rightarrow> nat" where
  "nfree s = length (filter (\<lambda>x. is_free_query (snd x)) (calls s))"

subsection \<open>The invariant of the sessions\<close>

text \<open>
  A timer is in order when it belongs to a session that is not aborted, was created with
  periodic checking, and remembers the timer's id, which is truthy; its period is the
  session's interval and its next firing lies within one period from now.
\<close>

definition timer_ok :: "state \<Rightarrow> timer \<Rightarrow> bool" where
  "timer_ok s t \<longleftrightarrow>
     (case sessions s (t_sid t) of
        None \<Rightarrow> False
      | Some se \<Rightarrow>
          \<not> aborted se \<and> s_periodic se \<and> intervalId se = Some (t_id t) \<and> t_id t \<noteq> 0 \<and>
          t_period t = s_interval se \<and> now s < t_due t \<and>
          t_due t \<le> now s + max 1 (t_period t))"

text \<open>
  In every state of a run: sessions are numbered consecutively; the only session that is
  not aborted is the mounted one; nothing is mounted after the unmount; there is at most
  one timer, and it is in order; every suspended cycle belongs to a session.
\<close>

definition inv_sessions :: "state \<Rightarrow> bool" where
  "inv_sessions s \<longleftrightarrow>
     (\<forall>sid. (sessions s sid \<noteq> None) = (sid < next_sid s)) \<and>
     (\<forall>sid se. sessions s sid = Some se \<longrightarrow> (\<not> aborted se) = (current s = Some sid)) \<and>
     (\<forall>sid. current s = Some sid \<longrightarrow> sid < next_sid s) \<and>
     (unmounted s \<longrightarrow> current s = None) \<and>
     next_timer s \<noteq> 0 \<and>
     length (timers s) \<le> 1 \<and>
     (\<forall>t\<in>set (timers s). timer_ok s t) \<and>
     (\<forall>c\<in>set (pending s). sessions s (c_sid c) \<noteq> None)"

text \<open>A session that exists and is not aborted.\<close>

definition live :: "state \<Rightarrow> nat \<Rightarrow> bool" where
  "live s sid = (case sessions s sid of None \<Rightarrow> False | Some se \<Rightarrow> \<not> aborted se)"

text \<open>
  What one event may do to the logs: entries are only appended, every new entry is made by
  a session that is not aborted afterwards, and the published status is the last new
  status update, if there is one.
\<close>

definition logs_extend :: "state \<Rightarrow> state \<Rightarrow> bool" where
  "logs_extend s s' \<longleftrightarrow>
     (\<exists>xs ys zs.
        checks s' = checks s @ xs \<and> calls s' = calls s @ ys \<and> emits s' = emits s @ zs \<and>
        (\<forall>x\<in>set xs. live s' x) \<and>
        (\<forall>y\<in>set ys. live s' (fst y)) \<and>
        (\<forall>z\<in>set zs. live s' (fst z)) \<and>
        storageStatus s' = (if zs = [] then storageStatus s else snd (last zs)))"

subsection \<open>Sample data\<close>

text \<open>
  Concrete arguments for the examples below. \<open>sampleFormat\<close> stands in for \<open>formatBytes\<close>
  (src/utils, not among the sources) on the two sizes of the examples, a model of
  5 000 000 000 bytes and 4 000 000 000 free bytes; the theorems hold for every formatter.
\<close>

definition sampleFormat :: "nat \<Rightarrow> string" where
  "sampleFormat n =
     (if n = 5000000000 then ''5 GB'' else if n = 4000000000 then ''4 GB'' else ''? B'')"

definition remoteModel :: Model where
  "remoteModel = \<lparr>isDownloaded = False, isLocal = False, origin = REMOTE,
     sizeBytes = 5000000000\<rparr>"

definition downloadedModel :: Model where
  "downloadedModel = \<lparr>isDownloaded = True, isLocal = False, origin = REMOTE,
     sizeBytes = 4000000000\<rparr>"

definition otherRemoteModel :: Model where
  "otherRemoteModel = \<lparr>isDownloaded = False, isLocal = False, origin = REMOTE,
     sizeBytes = 4000000000\<rparr>"

text \<open>No option given; periodic checking switched off; a check every 2 ms.\<close>

definition defaultOptions :: StorageCheckOptions where
  "defaultOptions = \<lparr>enablePeriodicCheck = None, checkInterval = None\<rparr>"

definition onceOptions :: StorageCheckOptions where
  "onceOptions = \<lparr>enablePeriodicCheck = Some False, checkInterval = None\<rparr>"

definition fastOptions :: StorageCheckOptions where
  "fastOptions = \<lparr>enablePeriodicCheck = Some True, checkInterval = Some 2\<rparr>"

subsection \<open>Models that need no check\<close>

text \<open>An event that starts no session for a model that needs a check.\<close>

definition skip_event :: "event \<Rightarrow> bool" where
  "skip_event e = (case e of Render m opts \<Rightarrow> needs_no_check m | _ \<Rightarrow> True)"

text \<open>Every suspended cycle belongs to a session whose model needs a check.\<close>

definition inv_cycles :: "state \<Rightarrow> bool" where
  "inv_cycles s \<longleftrightarrow>
     (\<forall>c\<in>set (pending s).
        case sessions s (c_sid c) of
          None \<Rightarrow> False
        | Some se \<Rightarrow> \<not> needs_no_check (s_model se))"

text \<open>The session of the mounted effect, if there is one, is for a model that needs no check.\<close>

definition current_skips :: "state \<Rightarrow> bool" where
  "current_skips s \<longleftrightarrow>
     (case current s of
        None \<Rightarrow> True
      | Some sid \<Rightarrow>
          (case sessions s sid of None \<Rightarrow> True | Some se \<Rightarrow> needs_no_check (s_model se)))"


subsection \<open>Time and the number of check cycles\<close>

text \<open>An event that leaves the mounted session running: time passing or a promise settling.\<close>

definition quiet :: "event \<Rightarrow> bool" where
  "quiet e = (case e of Render m opts \<Rightarrow> False | Unmount \<Rightarrow> False | _ \<Rightarrow> True)"

text \<open>The milliseconds that pass during a list of events.\<close>

definition ticks :: "event list \<Rightarrow> nat" where
  "ticks es = length (filter (\<lambda>e. e = Tick) es)"

text \<open>Check cycles are counted per session: every logged invocation is of a session that
  exists, a session without periodic checking has invoked \<open>checkStorage\<close> exactly once,
  and no session has more suspended cycles than invocations.\<close>

definition inv_checks :: "state \<Rightarrow> bool" where
  "inv_checks s \<longleftrightarrow>
     (\<forall>x\<in>set (checks s). x < next_sid s) \<and>
     (\<forall>sid se. sessions s sid = Some se \<and> \<not> s_periodic se \<longrightarrow> nchecks sid s = 1) \<and>
     (\<forall>sid. length (inflight sid s) \<le> nchecks sid s)"

section \<open>Lemmas\<close>

subsection \<open>What each operation changes; the invariant of the sessions\<close>

lemmas resume_defs = finish_def resume_hasEnoughSpace_def resume_getFreeDiskStorage_def
  try_catch_def after_hasEnoughSpace_def after_getFreeDiskStorage_def catch_block_def
  setStorageStatus_def signal_aborted_def

lemma checkStorage_frame [simp]:
  "sessions (checkStorage sid s) = sessions s"
  "timers (checkStorage sid s) = timers s"
  "now (checkStorage sid s) = now s"
  "current (checkStorage sid s) = current s"
  "unmounted (checkStorage sid s) = unmounted s"
  "storageStatus (checkStorage sid s) = storageStatus s"
  "emits (checkStorage sid s) = emits s"
  "console (checkStorage sid s) = console s"
  "unhandled (checkStorage sid s) = unhandled s"
  "next_sid (checkStorage sid s) = next_sid s"
  "next_timer (checkStorage sid s) = next_timer s"
  by (simp_all add: checkStorage_def Let_def split: option.splits)

lemma fold_checkStorage_same:
  assumes "\<And>sid s. f (checkStorage sid s) = f s"
  shows "f (fold (\<lambda>x. checkStorage (t_sid x)) ts s) = f s"
  using assms by (induction ts arbitrary: s) simp_all

lemma tick_frame [simp]:
  "sessions (tick s) = sessions s"
  "now (tick s) = Suc (now s)"
  "current (tick s) = current s"
  "unmounted (tick s) = unmounted s"
  "storageStatus (tick s) = storageStatus s"
  "emits (tick s) = emits s"
  "console (tick s) = console s"
  "unhandled (tick s) = unhandled s"
  "next_sid (tick s) = next_sid s"
  "next_timer (tick s) = next_timer s"
  "timers (tick s) = map (reschedule (Suc (now s))) (timers s)"
  by (simp_all add: tick_def Let_def fold_checkStorage_same)

lemma settle_hasEnoughSpace_frame [simp]:
  "sessions (settle_hasEnoughSpace k r s) = sessions s"
  "timers (settle_hasEnoughSpace k r s) = timers s"
  "now (settle_hasEnoughSpace k r s) = now s"
  "current (settle_hasEnoughSpace k r s) = current s"
  "unmounted (settle_hasEnoughSpace k r s) = unmounted s"
  "checks (settle_hasEnoughSpace k r s) = checks s"
  "next_sid (settle_hasEnoughSpace k r s) = next_sid s"
  "next_timer (settle_hasEnoughSpace k r s) = next_timer s"
  "next_cid (settle_hasEnoughSpace k r s) = next_cid s"
  by (simp_all add: settle_hasEnoughSpace_def resume_defs unsuspend_def
      split: option.splits settlement.splits)

lemma settle_getFreeDiskStorage_frame [simp]:
  "sessions (settle_getFreeDiskStorage fmt k r s) = sessions s"
  "timers (settle_getFreeDiskStorage fmt k r s) = timers s"
  "now (settle_getFreeDiskStorage fmt k r s) = now s"
  "current (settle_getFreeDiskStorage fmt k r s) = current s"
  "unmounted (settle_getFreeDiskStorage fmt k r s) = unmounted s"
  "checks (settle_getFreeDiskStorage fmt k r s) = checks s"
  "calls (settle_getFreeDiskStorage fmt k r s) = calls s"
  "next_sid (settle_getFreeDiskStorage fmt k r s) = next_sid s"
  "next_timer (settle_getFreeDiskStorage fmt k r s) = next_timer s"
  "next_cid (settle_getFreeDiskStorage fmt k r s) = next_cid s"
  by (simp_all add: settle_getFreeDiskStorage_def resume_defs unsuspend_def
      split: option.splits settlement.splits)

lemma cleanup_frame [simp]:
  "now (cleanup sid s) = now s"
  "current (cleanup sid s) = current s"
  "unmounted (cleanup sid s) = unmounted s"
  "storageStatus (cleanup sid s) = storageStatus s"
  "emits (cleanup sid s) = emits s"
  "console (cleanup sid s) = console s"
  "unhandled (cleanup sid s) = unhandled s"
  "checks (cleanup sid s) = checks s"
  "calls (cleanup sid s) = calls s"
  "pending (cleanup sid s) = pending s"
  "next_sid (cleanup sid s) = next_sid s"
  "next_cid (cleanup sid s) = next_cid s"
  "next_timer (cleanup sid s) = next_timer s"
  by (simp_all add: cleanup_def Let_def split: option.splits)

lemma cleanup_sessions:
  "sessions (cleanup sid s) =
     (case sessions s sid of None \<Rightarrow> sessions s
      | Some se \<Rightarrow> (sessions s)(sid \<mapsto> se\<lparr>aborted := True\<rparr>))"
  by (simp add: cleanup_def Let_def split: option.splits)

lemma cleanup_timers:
  "timers (cleanup sid s) =
     (case sessions s sid of None \<Rightarrow> timers s
      | Some se \<Rightarrow>
          (case intervalId se of None \<Rightarrow> timers s
           | Some i \<Rightarrow> if i \<noteq> 0 then filter (\<lambda>t. t_id t \<noteq> i) (timers s) else timers s))"
  by (simp add: cleanup_def Let_def split: option.splits)

lemma effect_frame [simp]:
  "now (effect m per iv s) = now s"
  "current (effect m per iv s) = Some (next_sid s)"
  "unmounted (effect m per iv s) = unmounted s"
  "storageStatus (effect m per iv s) = storageStatus s"
  "emits (effect m per iv s) = emits s"
  "console (effect m per iv s) = console s"
  "unhandled (effect m per iv s) = unhandled s"
  "next_sid (effect m per iv s) = Suc (next_sid s)"
  "checks (effect m per iv s) = checks s @ [next_sid s]"
  by (simp_all add: effect_def Let_def checkStorage_def)

lemma effect_sessions:
  "sessions (effect m per iv s) =
     (sessions s)(next_sid s \<mapsto>
        \<lparr>s_model = m, s_periodic = per, s_interval = iv, aborted = False,
         intervalId = (if per then Some (next_timer s) else None)\<rparr>)"
  by (simp add: effect_def Let_def)

lemma effect_timers:
  "timers (effect m per iv s) =
     (if per then timers s @
        [\<lparr>t_id = next_timer s, t_sid = next_sid s, t_period = iv, t_due = now s + max 1 iv\<rparr>]
      else timers s)"
  by (simp add: effect_def Let_def)

lemma effect_next_timer:
  "next_timer (effect m per iv s) = (if per then Suc (next_timer s) else next_timer s)"
  by (simp add: effect_def Let_def)

lemma checkStorage_pending:
  "c \<in> set (pending (checkStorage sid s)) \<Longrightarrow>
     c \<in> set (pending s) \<or> sessions s (c_sid c) \<noteq> None"
  by (auto simp: checkStorage_def Let_def split: option.splits if_splits)

lemma fold_checkStorage_pending:
  "c \<in> set (pending (fold (\<lambda>x. checkStorage (t_sid x)) ts s)) \<Longrightarrow>
     c \<in> set (pending s) \<or> sessions s (c_sid c) \<noteq> None"
proof (induction ts arbitrary: s)
  case Nil
  then show ?case by simp
next
  case (Cons t ts)
  from Cons.IH[of "checkStorage (t_sid t) s"] Cons.prems
  have "c \<in> set (pending (checkStorage (t_sid t) s)) \<or> sessions s (c_sid c) \<noteq> None"
    by simp
  then show ?case using checkStorage_pending by blast
qed

lemma tick_pending:
  "c \<in> set (pending (tick s)) \<Longrightarrow> c \<in> set (pending s) \<or> sessions s (c_sid c) \<noteq> None"
  using fold_checkStorage_pending[of c _
      "s\<lparr>now := Suc (now s), timers := map (reschedule (Suc (now s))) (timers s)\<rparr>"]
  by (simp add: tick_def Let_def)

lemma find_in_pending:
  "find (\<lambda>c. c_id c = k) (pending s) = Some c \<Longrightarrow> c \<in> set (pending s) \<and> c_id c = k"
  by (auto simp: find_Some_iff in_set_conv_nth)

lemma settle_hasEnoughSpace_pending:
  "c \<in> set (pending (settle_hasEnoughSpace k r s)) \<Longrightarrow> c_sid c \<in> c_sid ` set (pending s)"
  by (auto simp: settle_hasEnoughSpace_def resume_defs unsuspend_def image_iff
      dest!: find_in_pending split: option.splits settlement.splits if_splits)

lemma settle_getFreeDiskStorage_pending:
  "c \<in> set (pending (settle_getFreeDiskStorage fmt k r s)) \<Longrightarrow>
     c_sid c \<in> c_sid ` set (pending s)"
  by (auto simp: settle_getFreeDiskStorage_def resume_defs unsuspend_def image_iff
      dest!: find_in_pending split: option.splits settlement.splits if_splits)

lemma effect_pending:
  "c \<in> set (pending (effect m per iv s)) \<Longrightarrow> c \<in> set (pending s) \<or> c_sid c = next_sid s"
  by (auto simp: effect_def Let_def checkStorage_def split: if_splits)

lemma inv_sessions_init: "inv_sessions init"
  by (simp add: inv_sessions_def init_def)

lemma inv_sessions_settle1: "inv_sessions s \<Longrightarrow> inv_sessions (settle_hasEnoughSpace k r s)"
  unfolding inv_sessions_def
  by (auto simp: timer_ok_def dest!: settle_hasEnoughSpace_pending cong: option.case_cong)

lemma inv_sessions_settle2:
  "inv_sessions s \<Longrightarrow> inv_sessions (settle_getFreeDiskStorage fmt k r s)"
  unfolding inv_sessions_def
  by (auto simp: timer_ok_def dest!: settle_getFreeDiskStorage_pending cong: option.case_cong)

lemma timer_ok_reschedule:
  "timer_ok s t \<Longrightarrow> timer_ok (tick s) (reschedule (Suc (now s)) t)"
  by (auto simp: timer_ok_def reschedule_def split: option.splits)

lemma inv_sessions_tick: "inv_sessions s \<Longrightarrow> inv_sessions (tick s)"
  unfolding inv_sessions_def
  by (auto simp: timer_ok_reschedule dest!: tick_pending)

lemma current_session:
  assumes "inv_sessions s" "current s = Some sid"
  obtains se where "sessions s sid = Some se" "\<not> aborted se"
proof -
  from assms have "sid < next_sid s" by (simp add: inv_sessions_def)
  with assms have "sessions s sid \<noteq> None" unfolding inv_sessions_def by blast
  then obtain se where se: "sessions s sid = Some se" by auto
  with assms have "\<not> aborted se" unfolding inv_sessions_def by blast
  with se that show thesis by blast
qed

lemma timer_session:
  assumes "inv_sessions s" "t \<in> set (timers s)"
  obtains se where "sessions s (t_sid t) = Some se" "current s = Some (t_sid t)"
    "s_periodic se" "intervalId se = Some (t_id t)" "t_id t \<noteq> 0"
    "t_period t = s_interval se" "now s < t_due t" "t_due t \<le> now s + max 1 (t_period t)"
proof -
  from assms have ok: "timer_ok s t" by (simp add: inv_sessions_def)
  then obtain se where se: "sessions s (t_sid t) = Some se"
    by (auto simp: timer_ok_def split: option.splits)
  with ok have *: "\<not> aborted se" "s_periodic se" "intervalId se = Some (t_id t)"
    "t_id t \<noteq> 0" "t_period t = s_interval se" "now s < t_due t"
    "t_due t \<le> now s + max 1 (t_period t)"
    by (auto simp: timer_ok_def)
  from assms(1) se \<open>\<not> aborted se\<close> have "current s = Some (t_sid t)"
    unfolding inv_sessions_def by blast
  with se * that show thesis by blast
qed

lemma cleanup_current_timers:
  assumes "inv_sessions s" "current s = Some sid"
  shows "timers (cleanup sid s) = []"
proof -
  from assms obtain se where se: "sessions s sid = Some se"
    by (rule current_session)
  have *: "\<forall>t\<in>set (timers s). intervalId se = Some (t_id t) \<and> t_id t \<noteq> 0"
  proof
    fix t
    assume "t \<in> set (timers s)"
    from timer_session[OF assms(1) this] assms(2) se
    show "intervalId se = Some (t_id t) \<and> t_id t \<noteq> 0"
      by (metis option.inject)
  qed
  show ?thesis
  proof (cases "timers s")
    case Nil
    then show ?thesis using se by (simp add: cleanup_timers split: option.splits)
  next
    case (Cons t ts)
    with * have "intervalId se = Some (t_id t)" "t_id t \<noteq> 0" by simp_all
    with * show ?thesis using se by (auto simp: cleanup_timers filter_empty_conv)
  qed
qed

lemma no_current_no_timers:
  assumes "inv_sessions s" "current s = None"
  shows "timers s = []"
proof (cases "timers s")
  case (Cons t ts)
  then have "t \<in> set (timers s)" by simp
  from timer_session[OF assms(1) this] assms(2) show ?thesis by auto
qed simp

lemma inv_sessions_effect:
  assumes "(\<forall>sid. (sessions s sid \<noteq> None) = (sid < next_sid s))"
    "\<forall>sid se. sessions s sid = Some se \<longrightarrow> aborted se"
    "\<not> unmounted s" "next_timer s \<noteq> 0" "timers s = []"
    "\<forall>c\<in>set (pending s). sessions s (c_sid c) \<noteq> None"
  shows "inv_sessions (effect m per iv s)"
  using assms unfolding inv_sessions_def
  by (auto simp: effect_sessions effect_timers effect_next_timer timer_ok_def
      dest!: effect_pending)

lemma inv_sessions_render: "inv_sessions s \<Longrightarrow> inv_sessions (render m opts s)"
proof -
  assume i: "inv_sessions s"
  show ?thesis
  proof (cases "unmounted s")
    case True
    then show ?thesis using i by (simp add: render_def)
  next
    case False
    note nu = this
    show ?thesis
    proof (cases "current s")
      case None
      have "inv_sessions (effect m' per iv s)" for m' per iv
        using i None nu no_current_no_timers[OF i None]
        by (intro inv_sessions_effect) (auto simp: inv_sessions_def)
      then show ?thesis using None nu by (simp add: render_def Let_def)
    next
      case (Some sid)
      then obtain se where se: "sessions s sid = Some se"
        using i by (auto elim: current_session)
      have "inv_sessions (effect m' per iv (cleanup sid s))" for m' per iv
        using i Some nu se cleanup_current_timers[OF i Some]
        by (intro inv_sessions_effect) (auto simp: inv_sessions_def cleanup_sessions)
      then show ?thesis using Some nu se i by (simp add: render_def Let_def)
    qed
  qed
qed

lemma inv_sessions_unmount: "inv_sessions s \<Longrightarrow> inv_sessions (unmount s)"
proof -
  assume i: "inv_sessions s"
  show ?thesis
  proof (cases "current s")
    case None
    then show ?thesis using i no_current_no_timers[OF i None]
      by (auto simp: unmount_def inv_sessions_def timer_ok_def)
  next
    case (Some sid)
    then obtain se where se: "sessions s sid = Some se"
      using i by (auto elim: current_session)
    show ?thesis using i Some se cleanup_current_timers[OF i Some]
      by (auto simp: unmount_def inv_sessions_def cleanup_sessions)
  qed
qed

lemma inv_sessions_step: "inv_sessions s \<Longrightarrow> inv_sessions (step fmt e s)"
  by (cases e)
    (simp_all add: inv_sessions_render inv_sessions_unmount inv_sessions_tick
      inv_sessions_settle1 inv_sessions_settle2)

lemma inv_sessions_run: "inv_sessions s \<Longrightarrow> inv_sessions (run fmt es s)"
  unfolding run_def by (induction es arbitrary: s) (simp_all add: inv_sessions_step)

lemma inv_cur:
  "inv_sessions s \<Longrightarrow> sessions s sid = Some se \<Longrightarrow> (\<not> aborted se) = (current s = Some sid)"
  unfolding inv_sessions_def by blast

lemma inv_dom: "inv_sessions s \<Longrightarrow> (sessions s sid \<noteq> None) = (sid < next_sid s)"
  unfolding inv_sessions_def by blast

lemma inv_pending:
  "inv_sessions s \<Longrightarrow> c \<in> set (pending s) \<Longrightarrow> sessions s (c_sid c) \<noteq> None"
  unfolding inv_sessions_def by blast

lemma inv_timer_ok: "inv_sessions s \<Longrightarrow> t \<in> set (timers s) \<Longrightarrow> timer_ok s t"
  unfolding inv_sessions_def by blast

lemma live_current: "inv_sessions s \<Longrightarrow> live s sid \<Longrightarrow> current s = Some sid"
  using inv_cur[of s sid] by (auto simp: live_def split: option.splits)

lemma checkStorage_logs:
  "\<exists>xs ys. checks (checkStorage sid s) = checks s @ xs \<and> set xs \<subseteq> {sid} \<and>
     calls (checkStorage sid s) = calls s @ ys \<and> fst ` set ys \<subseteq> {sid}"
  by (simp add: checkStorage_def Let_def split: option.splits)

lemma fold_checkStorage_logs:
  "\<exists>xs ys. checks (fold (\<lambda>x. checkStorage (t_sid x)) ts s) = checks s @ xs \<and>
     set xs \<subseteq> t_sid ` set ts \<and>
     calls (fold (\<lambda>x. checkStorage (t_sid x)) ts s) = calls s @ ys \<and>
     fst ` set ys \<subseteq> t_sid ` set ts"
proof (induction ts arbitrary: s)
  case Nil
  then show ?case by simp
next
  case (Cons t ts)
  obtain xs ys where a: "checks (checkStorage (t_sid t) s) = checks s @ xs"
    "set xs \<subseteq> {t_sid t}" "calls (checkStorage (t_sid t) s) = calls s @ ys"
    "fst ` set ys \<subseteq> {t_sid t}"
    using checkStorage_logs by blast
  obtain xs' ys' where b:
    "checks (fold (\<lambda>x. checkStorage (t_sid x)) ts (checkStorage (t_sid t) s)) =
       checks (checkStorage (t_sid t) s) @ xs'"
    "set xs' \<subseteq> t_sid ` set ts"
    "calls (fold (\<lambda>x. checkStorage (t_sid x)) ts (checkStorage (t_sid t) s)) =
       calls (checkStorage (t_sid t) s) @ ys'"
    "fst ` set ys' \<subseteq> t_sid ` set ts"
    using Cons.IH by blast
  show ?case
    apply (rule exI[of _ "xs @ xs'"], rule exI[of _ "ys @ ys'"])
    using a b by auto
qed

lemma tick_logs:
  assumes "inv_sessions s"
  shows "\<exists>xs ys. checks (tick s) = checks s @ xs \<and> (\<forall>x\<in>set xs. live (tick s) x) \<and>
     calls (tick s) = calls s @ ys \<and> (\<forall>y\<in>set ys. live (tick s) (fst y))"
proof -
  let ?due = "filter (\<lambda>x. t_due x \<le> Suc (now s)) (timers s)"
  let ?s1 = "s\<lparr>now := Suc (now s), timers := map (reschedule (Suc (now s))) (timers s)\<rparr>"
  obtain xs ys where a: "checks (fold (\<lambda>x. checkStorage (t_sid x)) ?due ?s1) = checks ?s1 @ xs"
    "set xs \<subseteq> t_sid ` set ?due"
    "calls (fold (\<lambda>x. checkStorage (t_sid x)) ?due ?s1) = calls ?s1 @ ys"
    "fst ` set ys \<subseteq> t_sid ` set ?due"
    using fold_checkStorage_logs by blast
  have l: "live (tick s) (t_sid t)" if "t \<in> set (timers s)" for t
  proof -
    from assms that have "timer_ok s t" by (rule inv_timer_ok)
    then show ?thesis by (auto simp: timer_ok_def live_def split: option.splits)
  qed
  have "tick s = fold (\<lambda>x. checkStorage (t_sid x)) ?due ?s1"
    by (simp add: tick_def Let_def)
  with a l show ?thesis
    apply (intro exI[of _ xs] exI[of _ ys])
    by auto
qed

lemma logs_extendI:
  assumes "checks s' = checks s @ xs" "calls s' = calls s @ ys" "emits s' = emits s @ zs"
    "\<forall>x\<in>set xs. live s' x" "\<forall>y\<in>set ys. live s' (fst y)"
    "\<forall>z\<in>set zs. live s' (fst z)"
    "storageStatus s' = (if zs = [] then storageStatus s else snd (last zs))"
  shows "logs_extend s s'"
  unfolding logs_extend_def using assms by blast

lemma logs_extend_refl: "logs_extend s s"
  by (rule logs_extendI[of _ _ "[]" "[]" "[]"]) simp_all

lemma live_not_aborted: "live s sid \<Longrightarrow> \<not> signal_aborted s sid"
  by (auto simp: live_def signal_aborted_def split: option.splits)

lemma pending_live:
  assumes "inv_sessions s" "find (\<lambda>c. c_id c = k) (pending s) = Some c"
    "\<not> signal_aborted s (c_sid c)"
  shows "live s (c_sid c)"
proof -
  from assms(2) have "c \<in> set (pending s)" by (auto dest: find_in_pending)
  with assms(1) have "sessions s (c_sid c) \<noteq> None" by (rule inv_pending)
  with assms(3) show ?thesis by (auto simp: live_def signal_aborted_def)
qed

lemma tick_extend: "inv_sessions s \<Longrightarrow> logs_extend s (tick s)"
proof -
  assume "inv_sessions s"
  from tick_logs[OF this] obtain xs ys where
    "checks (tick s) = checks s @ xs" "\<forall>x\<in>set xs. live (tick s) x"
    "calls (tick s) = calls s @ ys" "\<forall>y\<in>set ys. live (tick s) (fst y)"
    by blast
  then show ?thesis
    by (intro logs_extendI[of _ _ xs ys "[]"]) auto
qed

lemma settle_hasEnoughSpace_cases:
  assumes "find (\<lambda>c. c_id c = k) (pending s) = Some c" "c_stage c = AwaitHasEnoughSpace"
  shows "settle_hasEnoughSpace k r s =
     (if signal_aborted s (c_sid c) then unsuspend k s
      else case r of
        Rejected \<Rightarrow>
          setStorageStatus (c_sid c) statusFailed
            ((unsuspend k s)\<lparr>console := console s @ [(c_sid c, SpaceCheckFailure)]\<rparr>)
      | Fulfilled b \<Rightarrow>
          if b then setStorageStatus (c_sid c) statusOk (unsuspend k s)
          else (unsuspend k s)\<lparr>calls := calls s @ [(c_sid c, GetFreeDiskStorage ''important'')],
            pending := filter (\<lambda>c. c_id c \<noteq> k) (pending s) @ [c\<lparr>c_stage := AwaitFreeDisk\<rparr>]\<rparr>)"
proof (cases r)
  case (Fulfilled b)
  then show ?thesis using assms
    by (simp add: settle_hasEnoughSpace_def resume_defs unsuspend_def)
next
  case Rejected
  then show ?thesis using assms
    by (simp add: settle_hasEnoughSpace_def resume_defs unsuspend_def)
qed

lemma settle_getFreeDiskStorage_cases:
  assumes "find (\<lambda>c. c_id c = k) (pending s) = Some c" "c_stage c = AwaitFreeDisk"
    "sessions s (c_sid c) = Some se"
  shows "settle_getFreeDiskStorage fmt k r s =
     (if aborted se then unsuspend k s
      else case r of
        Rejected \<Rightarrow>
          setStorageStatus (c_sid c) statusFailed
            ((unsuspend k s)\<lparr>console := console s @ [(c_sid c, FreeSpaceQueryFailure)]\<rparr>)
      | Fulfilled freeDisk \<Rightarrow>
          setStorageStatus (c_sid c) (statusLow fmt (s_model se) freeDisk) (unsuspend k s))"
proof (cases r)
  case (Fulfilled n)
  then show ?thesis using assms
    by (simp add: settle_getFreeDiskStorage_def resume_defs unsuspend_def)
next
  case Rejected
  then show ?thesis using assms
    by (simp add: settle_getFreeDiskStorage_def resume_defs unsuspend_def)
qed

lemma settle_hasEnoughSpace_idle:
  "find (\<lambda>c. c_id c = k) (pending s) = None \<or>
   (\<exists>c. find (\<lambda>c. c_id c = k) (pending s) = Some c \<and> c_stage c \<noteq> AwaitHasEnoughSpace) \<Longrightarrow>
   settle_hasEnoughSpace k r s = s"
  by (auto simp: settle_hasEnoughSpace_def)

lemma settle_getFreeDiskStorage_idle:
  "find (\<lambda>c. c_id c = k) (pending s) = None \<or>
   (\<exists>c. find (\<lambda>c. c_id c = k) (pending s) = Some c \<and> c_stage c \<noteq> AwaitFreeDisk) \<Longrightarrow>
   settle_getFreeDiskStorage fmt k r s = s"
  by (auto simp: settle_getFreeDiskStorage_def)

lemma live_unsuspend [simp]: "live (unsuspend k s) = live s"
  by (simp add: live_def unsuspend_def fun_eq_iff)

lemma settle_hasEnoughSpace_extend:
  assumes "inv_sessions s"
  shows "logs_extend s (settle_hasEnoughSpace k r s)"
proof (cases "find (\<lambda>c. c_id c = k) (pending s)")
  case None
  then show ?thesis by (simp add: settle_hasEnoughSpace_idle logs_extend_refl)
next
  case (Some c)
  show ?thesis
  proof (cases "c_stage c = AwaitHasEnoughSpace")
    case False
    with Some show ?thesis by (simp add: settle_hasEnoughSpace_idle logs_extend_refl)
  next
    case True
    note eq = settle_hasEnoughSpace_cases[OF Some True, of r]
    show ?thesis
    proof (cases "signal_aborted s (c_sid c)")
      case True
      with eq show ?thesis
        by (auto intro!: logs_extendI[of _ _ "[]" "[]" "[]"] simp: unsuspend_def)
    next
      case False
      have l: "live s (c_sid c)" by (rule pending_live[OF assms Some False])
      then have l': "live (settle_hasEnoughSpace k r s) (c_sid c)"
        by (simp add: live_def)
      show ?thesis
      proof (cases r)
        case Rejected
        with eq False l' show ?thesis
          by (intro logs_extendI[of _ _ "[]" "[]" "[(c_sid c, statusFailed)]"])
            (simp_all add: unsuspend_def setStorageStatus_def)
      next
        case (Fulfilled b)
        show ?thesis
        proof (cases b)
          case True
          with eq False l' Fulfilled show ?thesis
            by (intro logs_extendI[of _ _ "[]" "[]" "[(c_sid c, statusOk)]"])
              (simp_all add: unsuspend_def setStorageStatus_def)
        next
          case b: False
          with eq False l' Fulfilled show ?thesis
            by (intro logs_extendI[of _ _ "[]"
                  "[(c_sid c, GetFreeDiskStorage ''important'')]" "[]"])
              (simp_all add: unsuspend_def)
        qed
      qed
    qed
  qed
qed

lemma settle_getFreeDiskStorage_extend:
  assumes "inv_sessions s"
  shows "logs_extend s (settle_getFreeDiskStorage fmt k r s)"
proof (cases "find (\<lambda>c. c_id c = k) (pending s)")
  case None
  then show ?thesis by (simp add: settle_getFreeDiskStorage_idle logs_extend_refl)
next
  case (Some c)
  show ?thesis
  proof (cases "c_stage c = AwaitFreeDisk")
    case False
    with Some show ?thesis by (simp add: settle_getFreeDiskStorage_idle logs_extend_refl)
  next
    case True
    from Some have "c \<in> set (pending s)" by (auto dest: find_in_pending)
    with assms obtain se where se: "sessions s (c_sid c) = Some se"
      using inv_pending by blast
    note eq = settle_getFreeDiskStorage_cases[OF Some True se, of fmt r]
    show ?thesis
    proof (cases "aborted se")
      case True
      with eq show ?thesis
        by (auto intro!: logs_extendI[of _ _ "[]" "[]" "[]"] simp: unsuspend_def)
    next
      case False
      with se have l': "live (settle_getFreeDiskStorage fmt k r s) (c_sid c)"
        by (simp add: live_def)
      show ?thesis
      proof (cases r)
        case Rejected
        with eq False l' show ?thesis
          by (intro logs_extendI[of _ _ "[]" "[]" "[(c_sid c, statusFailed)]"])
            (simp_all add: unsuspend_def setStorageStatus_def)
      next
        case (Fulfilled n)
        with eq False l' show ?thesis
          by (intro logs_extendI[of _ _ "[]" "[]"
                "[(c_sid c, statusLow fmt (s_model se) n)]"])
            (simp_all add: unsuspend_def setStorageStatus_def)
      qed
    qed
  qed
qed

lemma effect_calls:
  "calls (effect m per iv s) =
     (if needs_no_check m then calls s else calls s @ [(next_sid s, HasEnoughSpace m)])"
  by (simp add: effect_def Let_def checkStorage_def)

lemma effect_extend: "logs_extend s (effect m per iv s)"
  by (rule logs_extendI[of _ _ "[next_sid s]"
        "if needs_no_check m then [] else [(next_sid s, HasEnoughSpace m)]" "[]"])
    (auto simp: effect_calls effect_sessions live_def)

lemma effect_cleanup_extend: "logs_extend s (effect m per iv (cleanup sid s))"
  using effect_extend[of "cleanup sid s" m per iv]
  by (simp add: logs_extend_def)

lemma render_extend: "logs_extend s (render m opts s)"
  by (simp add: render_def Let_def logs_extend_refl effect_extend effect_cleanup_extend
      split: option.splits)

lemma unmount_extend: "logs_extend s (unmount s)"
  by (auto simp: unmount_def logs_extend_def split: option.splits)

lemma step_extend: "inv_sessions s \<Longrightarrow> logs_extend s (step fmt e s)"
  by (cases e)
    (simp_all add: render_extend unmount_extend tick_extend settle_hasEnoughSpace_extend
      settle_getFreeDiskStorage_extend)

lemma cleanup_dead: "signal_aborted s sid \<Longrightarrow> signal_aborted (cleanup sid' s) sid"
  by (auto simp: signal_aborted_def cleanup_sessions split: option.splits)

lemma effect_dead:
  assumes "inv_sessions s" "signal_aborted s sid"
  shows "signal_aborted (effect m per iv (cleanup sid' s)) sid"
    and "signal_aborted (effect m per iv s) sid"
proof -
  from assms(2) have "sessions s sid \<noteq> None"
    by (auto simp: signal_aborted_def split: option.splits)
  with assms(1) have "sid \<noteq> next_sid s"
    using inv_dom[of s sid] by auto
  then show "signal_aborted (effect m per iv (cleanup sid' s)) sid"
    using cleanup_dead[OF assms(2), of sid']
    by (simp add: signal_aborted_def effect_sessions)
  from \<open>sid \<noteq> next_sid s\<close> show "signal_aborted (effect m per iv s) sid"
    using assms(2) by (simp add: signal_aborted_def effect_sessions)
qed

lemma dead_step:
  assumes "inv_sessions s" "signal_aborted s sid"
  shows "signal_aborted (step fmt e s) sid"
proof (cases e)
  case (Render m opts)
  then show ?thesis using assms
    by (simp add: render_def Let_def effect_dead split: option.splits)
next
  case Unmount
  then show ?thesis using assms
    by (auto simp: unmount_def cleanup_dead signal_aborted_def cleanup_sessions
        split: option.splits)
next
  case Tick
  then show ?thesis using assms by (simp add: signal_aborted_def)
next
  case (HasEnoughSpaceSettled k r)
  then show ?thesis using assms by (simp add: signal_aborted_def)
next
  case (FreeDiskSettled k r)
  then show ?thesis using assms by (simp add: signal_aborted_def)
qed

lemma dead_frozen_step:
  assumes "inv_sessions s" "signal_aborted s sid"
  shows "emits_of sid (step fmt e s) = emits_of sid s \<and>
         calls_of sid (step fmt e s) = calls_of sid s \<and>
         nchecks sid (step fmt e s) = nchecks sid s"
proof -
  have d: "signal_aborted (step fmt e s) sid" by (rule dead_step[OF assms])
  from step_extend[OF assms(1), of fmt e] obtain xs ys zs where
    l: "checks (step fmt e s) = checks s @ xs" "calls (step fmt e s) = calls s @ ys"
      "emits (step fmt e s) = emits s @ zs"
      "\<forall>x\<in>set xs. live (step fmt e s) x"
      "\<forall>y\<in>set ys. live (step fmt e s) (fst y)"
      "\<forall>z\<in>set zs. live (step fmt e s) (fst z)"
    unfolding logs_extend_def by blast
  from d l(4) have "filter (\<lambda>x. x = sid) xs = []"
    by (auto simp: filter_empty_conv dest: live_not_aborted)
  moreover from d l(5) have "filter (\<lambda>x. fst x = sid) ys = []"
    by (auto simp: filter_empty_conv dest: live_not_aborted)
  moreover from d l(6) have "filter (\<lambda>x. fst x = sid) zs = []"
    by (auto simp: filter_empty_conv dest: live_not_aborted)
  ultimately show ?thesis using l(1-3)
    by (simp add: emits_of_def calls_of_def nchecks_def)
qed

lemma dead_frozen_run:
  assumes "inv_sessions s" "signal_aborted s sid"
  shows "signal_aborted (run fmt es s) sid \<and>
         emits_of sid (run fmt es s) = emits_of sid s \<and>
         calls_of sid (run fmt es s) = calls_of sid s \<and>
         nchecks sid (run fmt es s) = nchecks sid s"
  using assms
proof (induction es arbitrary: s)
  case Nil
  then show ?case by (simp add: run_def)
next
  case (Cons e es)
  have "run fmt (e # es) s = run fmt es (step fmt e s)" by (simp add: run_def)
  moreover note Cons.IH[OF inv_sessions_step[OF Cons.prems(1)] dead_step[OF Cons.prems]]
    dead_frozen_step[OF Cons.prems]
  ultimately show ?case by simp
qed

lemma inv_sessions_reach: "inv_sessions (run fmt es init)"
  by (rule inv_sessions_run[OF inv_sessions_init])

lemma run_append: "run fmt (es @ es') s = run fmt es' (run fmt es s)"
  by (simp add: run_def)

lemmas model_defs = run_def init_def render_def effect_def checkStorage_def cleanup_def
  unmount_def tick_def reschedule_def settle_hasEnoughSpace_def settle_getFreeDiskStorage_def
  unsuspend_def resume_defs needs_no_check_def statusLow_def statusOk_def statusFailed_def
  initialStatus_def

lemmas sample_defs = sampleFormat_def remoteModel_def downloadedModel_def defaultOptions_def
  onceOptions_def fastOptions_def

lemma unsuspend_gone: "k \<notin> c_id ` set (pending (unsuspend k s))"
  by (auto simp: unsuspend_def)

lemma unhandled_step: "unhandled (step fmt e s) = unhandled s"
proof (cases e)
  case (Render m opts)
  then show ?thesis by (simp add: render_def Let_def split: option.splits)
next
  case Unmount
  then show ?thesis by (simp add: unmount_def split: option.splits)
next
  case Tick
  then show ?thesis by simp
next
  case (HasEnoughSpaceSettled k r)
  then show ?thesis
    by (cases r) (simp_all add: settle_hasEnoughSpace_def resume_defs unsuspend_def
        split: option.splits)
next
  case (FreeDiskSettled k r)
  then show ?thesis
    by (cases r) (simp_all add: settle_getFreeDiskStorage_def resume_defs unsuspend_def
        split: option.splits)
qed

lemma unhandled_run: "unhandled (run fmt es s) = unhandled s"
  unfolding run_def by (induction es arbitrary: s) (simp_all add: unhandled_step)

lemma nfree_checkStorage: "nfree (checkStorage sid s) = nfree s"
  by (simp add: nfree_def checkStorage_def Let_def is_free_query_def split: option.splits)

lemma nfree_tick: "nfree (tick s) = nfree s"
  by (simp add: tick_def Let_def fold_checkStorage_same[of nfree, OF nfree_checkStorage])
    (simp add: nfree_def)

lemma nfree_render: "nfree (render m opts s) = nfree s"
  by (simp add: render_def Let_def nfree_def effect_calls is_free_query_def
      split: option.splits)

lemma nfree_unmount: "nfree (unmount s) = nfree s"
  by (simp add: unmount_def nfree_def split: option.splits)

lemma nfree_settle_getFreeDiskStorage: "nfree (settle_getFreeDiskStorage fmt k r s) = nfree s"
  by (simp add: nfree_def)

lemma nfree_settle_hasEnoughSpace:
  assumes "nfree (settle_hasEnoughSpace k r s) \<noteq> nfree s"
  shows "\<exists>c. r = Fulfilled False \<and> find (\<lambda>c. c_id c = k) (pending s) = Some c \<and>
           c_stage c = AwaitHasEnoughSpace \<and> \<not> signal_aborted s (c_sid c)"
proof (cases "find (\<lambda>c. c_id c = k) (pending s)")
  case None
  with assms show ?thesis by (simp add: settle_hasEnoughSpace_idle)
next
  case (Some c)
  show ?thesis
  proof (cases "c_stage c = AwaitHasEnoughSpace")
    case False
    with Some assms show ?thesis by (simp add: settle_hasEnoughSpace_idle)
  next
    case True
    from assms settle_hasEnoughSpace_cases[OF Some True, of r]
    have "\<not> signal_aborted s (c_sid c) \<and> r = Fulfilled False"
      by (cases r) (auto simp: nfree_def unsuspend_def setStorageStatus_def split: if_splits)
    with Some True show ?thesis by simp
  qed
qed

lemma find_app:
  "find P (xs @ ys) = (case find P xs of None \<Rightarrow> find P ys | Some x \<Rightarrow> Some x)"
  by (induction xs) simp_all

subsection \<open>After the unmount and after an abort\<close>

lemma unmounted_step: "unmounted s \<Longrightarrow> unmounted (step fmt e s)"
  by (cases e) (simp_all add: render_def unmount_def)

lemma inv_unmounted: "inv_sessions s \<Longrightarrow> unmounted s \<Longrightarrow> current s = None"
  unfolding inv_sessions_def by blast

lemma unmounted_frozen_step:
  assumes "inv_sessions s" "unmounted s"
  shows "emits (step fmt e s) = emits s \<and> checks (step fmt e s) = checks s \<and>
         calls (step fmt e s) = calls s \<and> storageStatus (step fmt e s) = storageStatus s"
proof -
  have i: "inv_sessions (step fmt e s)" by (rule inv_sessions_step[OF assms(1)])
  have "current (step fmt e s) = None"
    by (rule inv_unmounted[OF i unmounted_step[OF assms(2)]])
  then have nl: "\<not> live (step fmt e s) x" for x
    using live_current[OF i, of x] by auto
  from step_extend[OF assms(1), of fmt e] obtain xs ys zs where
    l: "checks (step fmt e s) = checks s @ xs" "calls (step fmt e s) = calls s @ ys"
      "emits (step fmt e s) = emits s @ zs"
      "\<forall>x\<in>set xs. live (step fmt e s) x"
      "\<forall>y\<in>set ys. live (step fmt e s) (fst y)"
      "\<forall>z\<in>set zs. live (step fmt e s) (fst z)"
      "storageStatus (step fmt e s) = (if zs = [] then storageStatus s else snd (last zs))"
    unfolding logs_extend_def by blast
  from nl l(4) have "xs = []" by (cases xs) auto
  moreover from nl l(5) have "ys = []" by (cases ys) auto
  moreover from nl l(6) have "zs = []" by (cases zs) auto
  ultimately show ?thesis using l by simp
qed

lemma unmounted_frozen_run:
  assumes "inv_sessions s" "unmounted s"
  shows "emits (run fmt es s) = emits s \<and> checks (run fmt es s) = checks s \<and>
         calls (run fmt es s) = calls s \<and> storageStatus (run fmt es s) = storageStatus s"
  using assms
proof (induction es arbitrary: s)
  case Nil
  then show ?case by (simp add: run_def)
next
  case (Cons e es)
  have "run fmt (e # es) s = run fmt es (step fmt e s)" by (simp add: run_def)
  moreover note Cons.IH[OF inv_sessions_step[OF Cons.prems(1)] unmounted_step[OF Cons.prems(2)]]
    unmounted_frozen_step[OF Cons.prems]
  ultimately show ?case by simp
qed

lemma dead_no_timer:
  assumes "inv_sessions s" "signal_aborted s sid" "t \<in> set (timers s)"
  shows "t_sid t \<noteq> sid"
proof -
  from assms(1,3) have "timer_ok s t" by (rule inv_timer_ok)
  with assms(2) show ?thesis
    by (auto simp: timer_ok_def signal_aborted_def split: option.splits)
qed

lemma settle_hasEnoughSpace_dead:
  assumes "find (\<lambda>c. c_id c = k) (pending s) = Some c" "signal_aborted s (c_sid c)"
  shows "settle_hasEnoughSpace k r s = s \<or> settle_hasEnoughSpace k r s = unsuspend k s"
proof (cases "c_stage c = AwaitHasEnoughSpace")
  case True
  from settle_hasEnoughSpace_cases[OF assms(1) True] assms(2) show ?thesis by simp
next
  case False
  with assms(1) show ?thesis by (simp add: settle_hasEnoughSpace_idle)
qed

lemma settle_getFreeDiskStorage_dead:
  assumes "find (\<lambda>c. c_id c = k) (pending s) = Some c" "signal_aborted s (c_sid c)"
  shows "settle_getFreeDiskStorage fmt k r s = s \<or>
         settle_getFreeDiskStorage fmt k r s = unsuspend k s"
proof (cases "c_stage c = AwaitFreeDisk")
  case True
  from assms(2) obtain se where "sessions s (c_sid c) = Some se" "aborted se"
    by (auto simp: signal_aborted_def split: option.splits)
  with settle_getFreeDiskStorage_cases[OF assms(1) True, of se] show ?thesis by simp
next
  case False
  with assms(1) show ?thesis by (simp add: settle_getFreeDiskStorage_idle)
qed

subsection \<open>Sessions are stable; models that need no check\<close>

lemma render_cases:
  "render m opts s = s \<or>
   (\<exists>per iv. current s = None \<and> render m opts s = effect m per iv s) \<or>
   (\<exists>per iv cur. current s = Some cur \<and> render m opts s = effect m per iv (cleanup cur s))"
  by (auto simp: render_def Let_def split: option.splits)

lemma unmount_cases:
  "unmount s = s \<or> unmount s = s\<lparr>unmounted := True\<rparr> \<or>
   (\<exists>cur. current s = Some cur \<and>
      unmount s = (cleanup cur s)\<lparr>current := None, unmounted := True\<rparr>)"
  by (auto simp: unmount_def split: option.splits)

lemma session_stable_step:
  assumes "inv_sessions s" "sessions s sid = Some se"
  shows "\<exists>se'. sessions (step fmt e s) sid = Some se' \<and> s_model se' = s_model se \<and>
           s_periodic se' = s_periodic se \<and> s_interval se' = s_interval se \<and>
           (aborted se \<longrightarrow> aborted se')"
proof -
  have ne: "sid \<noteq> next_sid s" using inv_dom[OF assms(1), of sid] assms(2) by auto
  show ?thesis
  proof (cases e)
    case (Render m opts)
    from render_cases[of m opts s] ne assms(2) show ?thesis
      unfolding Render
      by (auto simp: effect_sessions cleanup_sessions split: option.splits)
  next
    case Unmount
    from unmount_cases[of s] assms(2) show ?thesis
      unfolding Unmount
      by (auto simp: cleanup_sessions split: option.splits)
  next
    case Tick
    then show ?thesis using assms(2) by simp
  next
    case (HasEnoughSpaceSettled k r)
    then show ?thesis using assms(2) by simp
  next
    case (FreeDiskSettled k r)
    then show ?thesis using assms(2) by simp
  qed
qed

lemma session_stable_run:
  assumes "inv_sessions s" "sessions s sid = Some se"
  shows "\<exists>se'. sessions (run fmt es s) sid = Some se' \<and> s_model se' = s_model se \<and>
           s_periodic se' = s_periodic se \<and> s_interval se' = s_interval se \<and>
           (aborted se \<longrightarrow> aborted se')"
  using assms
proof (induction es arbitrary: s se)
  case Nil
  then show ?case by (simp add: run_def)
next
  case (Cons e es)
  from session_stable_step[OF Cons.prems, of fmt e] obtain se1 where
    s1: "sessions (step fmt e s) sid = Some se1" "s_model se1 = s_model se"
      "s_periodic se1 = s_periodic se" "s_interval se1 = s_interval se"
      "aborted se \<longrightarrow> aborted se1"
    by blast
  from Cons.IH[OF inv_sessions_step[OF Cons.prems(1)] s1(1)] obtain se' where
    "sessions (run fmt es (step fmt e s)) sid = Some se'" "s_model se' = s_model se1"
    "s_periodic se' = s_periodic se1" "s_interval se' = s_interval se1"
    "aborted se1 \<longrightarrow> aborted se'"
    by blast
  moreover have "run fmt (e # es) s = run fmt es (step fmt e s)" by (simp add: run_def)
  ultimately show ?case using s1 by auto
qed

text \<open>Suspended cycles belong to sessions whose model needs a check.\<close>

lemma checkStorage_pending_model:
  "c \<in> set (pending (checkStorage sid s)) \<Longrightarrow>
     c \<in> set (pending s) \<or>
     (case sessions s (c_sid c) of None \<Rightarrow> False | Some se \<Rightarrow> \<not> needs_no_check (s_model se))"
  by (auto simp: checkStorage_def Let_def split: option.splits if_splits)

lemma fold_checkStorage_pending_model:
  "c \<in> set (pending (fold (\<lambda>x. checkStorage (t_sid x)) ts s)) \<Longrightarrow>
     c \<in> set (pending s) \<or>
     (case sessions s (c_sid c) of None \<Rightarrow> False | Some se \<Rightarrow> \<not> needs_no_check (s_model se))"
proof (induction ts arbitrary: s)
  case Nil
  then show ?case by simp
next
  case (Cons t ts)
  from Cons.IH[of "checkStorage (t_sid t) s"] Cons.prems
  have "c \<in> set (pending (checkStorage (t_sid t) s)) \<or>
     (case sessions s (c_sid c) of None \<Rightarrow> False | Some se \<Rightarrow> \<not> needs_no_check (s_model se))"
    by simp
  then show ?case using checkStorage_pending_model by blast
qed

lemma tick_pending_model:
  "c \<in> set (pending (tick s)) \<Longrightarrow>
     c \<in> set (pending s) \<or>
     (case sessions s (c_sid c) of None \<Rightarrow> False | Some se \<Rightarrow> \<not> needs_no_check (s_model se))"
  using fold_checkStorage_pending_model[of c _
      "s\<lparr>now := Suc (now s), timers := map (reschedule (Suc (now s))) (timers s)\<rparr>"]
  by (simp add: tick_def Let_def)

lemma effect_pending_model:
  "c \<in> set (pending (effect m per iv s)) \<Longrightarrow>
     c \<in> set (pending s) \<or> (c_sid c = next_sid s \<and> \<not> needs_no_check m)"
  by (auto simp: effect_def Let_def checkStorage_def split: if_splits)

lemma inv_cycles_init: "inv_cycles init"
  by (simp add: inv_cycles_def init_def)

lemma inv_cycles_cleanup: "inv_cycles s \<Longrightarrow> inv_cycles (cleanup cur s)"
  unfolding inv_cycles_def
  by (auto simp: cleanup_sessions split: option.splits)

lemma inv_cycles_effect:
  assumes "inv_cycles s" "sessions s (next_sid s) = None"
  shows "inv_cycles (effect m per iv s)"
  unfolding inv_cycles_def
proof
  fix c
  assume "c \<in> set (pending (effect m per iv s))"
  then consider "c \<in> set (pending s)" | "c_sid c = next_sid s" "\<not> needs_no_check m"
    using effect_pending_model by blast
  then show "case sessions (effect m per iv s) (c_sid c) of None \<Rightarrow> False
             | Some se \<Rightarrow> \<not> needs_no_check (s_model se)"
  proof cases
    case 1
    with assms(1) obtain se where se: "sessions s (c_sid c) = Some se"
      "\<not> needs_no_check (s_model se)"
      unfolding inv_cycles_def by (auto split: option.splits)
    with assms(2) have "c_sid c \<noteq> next_sid s" by auto
    with se show ?thesis by (simp add: effect_sessions)
  next
    case 2
    then show ?thesis by (simp add: effect_sessions)
  qed
qed

lemma cleanup_fresh: "sessions s (next_sid s) = None \<Longrightarrow>
    sessions (cleanup cur s) (next_sid (cleanup cur s)) = None"
  by (auto simp: cleanup_sessions split: option.splits)

lemma inv_fresh: "inv_sessions s \<Longrightarrow> sessions s (next_sid s) = None"
  using inv_dom[of s "next_sid s"] by auto

lemma inv_cycles_step:
  assumes "inv_sessions s" "inv_cycles s"
  shows "inv_cycles (step fmt e s)"
proof (cases e)
  case (Render m opts)
  note fr = inv_fresh[OF assms(1)]
  from render_cases[of m opts s] show ?thesis
    unfolding Render step.simps
  proof (elim disjE exE conjE)
    assume "render m opts s = s"
    with assms(2) show "inv_cycles (render m opts s)" by simp
  next
    fix per iv
    assume "render m opts s = effect m per iv s"
    with inv_cycles_effect[OF assms(2) fr] show "inv_cycles (render m opts s)" by simp
  next
    fix per iv cur
    assume "render m opts s = effect m per iv (cleanup cur s)"
    with inv_cycles_effect[OF inv_cycles_cleanup[OF assms(2)] cleanup_fresh[OF fr]]
    show "inv_cycles (render m opts s)" by simp
  qed
next
  case Unmount
  from unmount_cases[of s] assms(2) inv_cycles_cleanup[OF assms(2)] show ?thesis
    unfolding Unmount
    by (auto simp: inv_cycles_def)
next
  case Tick
  show ?thesis unfolding Tick step.simps inv_cycles_def
  proof
    fix c
    assume "c \<in> set (pending (tick s))"
    from tick_pending_model[OF this] assms(2)
    show "case sessions (tick s) (c_sid c) of None \<Rightarrow> False
          | Some se \<Rightarrow> \<not> needs_no_check (s_model se)"
      by (auto simp: inv_cycles_def)
  qed
next
  case (HasEnoughSpaceSettled k r)
  show ?thesis unfolding HasEnoughSpaceSettled step.simps inv_cycles_def
  proof
    fix c
    assume "c \<in> set (pending (settle_hasEnoughSpace k r s))"
    from settle_hasEnoughSpace_pending[OF this] assms(2)
    show "case sessions (settle_hasEnoughSpace k r s) (c_sid c) of None \<Rightarrow> False
          | Some se \<Rightarrow> \<not> needs_no_check (s_model se)"
      by (auto simp: inv_cycles_def)
  qed
next
  case (FreeDiskSettled k r)
  show ?thesis unfolding FreeDiskSettled step.simps inv_cycles_def
  proof
    fix c
    assume "c \<in> set (pending (settle_getFreeDiskStorage fmt k r s))"
    from settle_getFreeDiskStorage_pending[OF this] assms(2)
    show "case sessions (settle_getFreeDiskStorage fmt k r s) (c_sid c) of None \<Rightarrow> False
          | Some se \<Rightarrow> \<not> needs_no_check (s_model se)"
      by (auto simp: inv_cycles_def)
  qed
qed

lemma inv_cycles_run:
  "inv_sessions s \<Longrightarrow> inv_cycles s \<Longrightarrow> inv_cycles (run fmt es s)"
proof (induction es arbitrary: s)
  case Nil
  then show ?case by (simp add: run_def)
next
  case (Cons e es)
  have "run fmt (e # es) s = run fmt es (step fmt e s)" by (simp add: run_def)
  with Cons.IH[OF inv_sessions_step[OF Cons.prems(1)] inv_cycles_step[OF Cons.prems]]
  show ?case by simp
qed

lemma inv_cycles_reach: "inv_cycles (run fmt es init)"
  by (rule inv_cycles_run[OF inv_sessions_init inv_cycles_init])

text \<open>While the mounted session is for a model that needs no check, nothing is asked and
  nothing is published.\<close>

lemma checkStorage_skip:
  assumes "sessions s sid = Some se" "needs_no_check (s_model se)"
  shows "checkStorage sid s = s\<lparr>checks := checks s @ [sid]\<rparr>"
  using assms by (simp add: checkStorage_def Let_def)

lemma fold_checkStorage_skip:
  assumes "\<forall>t\<in>set ts. case sessions s (t_sid t) of None \<Rightarrow> True
                       | Some se \<Rightarrow> needs_no_check (s_model se)"
  shows "calls (fold (\<lambda>x. checkStorage (t_sid x)) ts s) = calls s \<and>
         pending (fold (\<lambda>x. checkStorage (t_sid x)) ts s) = pending s"
  using assms
proof (induction ts arbitrary: s)
  case Nil
  then show ?case by simp
next
  case (Cons t ts)
  have a: "calls (checkStorage (t_sid t) s) = calls s \<and>
           pending (checkStorage (t_sid t) s) = pending s"
    using Cons.prems by (auto simp: checkStorage_def Let_def split: option.splits)
  have "\<forall>t\<in>set ts. case sessions (checkStorage (t_sid t) s) (t_sid t) of None \<Rightarrow> True
                       | Some se \<Rightarrow> needs_no_check (s_model se)" for t
    using Cons.prems by simp
  then have b: "\<forall>x\<in>set ts. case sessions (checkStorage (t_sid t) s) (t_sid x) of None \<Rightarrow> True
                       | Some se \<Rightarrow> needs_no_check (s_model se)"
    using Cons.prems by simp
  from Cons.IH[OF b] a show ?case by simp
qed

lemma tick_skip:
  assumes "inv_sessions s" "current_skips s"
  shows "calls (tick s) = calls s \<and> pending (tick s) = pending s"
proof -
  let ?s1 = "s\<lparr>now := Suc (now s), timers := map (reschedule (Suc (now s))) (timers s)\<rparr>"
  let ?due = "filter (\<lambda>x. t_due x \<le> Suc (now s)) (timers s)"
  have "case sessions ?s1 (t_sid t) of None \<Rightarrow> True | Some se \<Rightarrow> needs_no_check (s_model se)"
    if "t \<in> set ?due" for t
  proof -
    from that have "t \<in> set (timers s)" by simp
    from timer_session[OF assms(1) this] obtain se where
      "sessions s (t_sid t) = Some se" "current s = Some (t_sid t)"
      by blast
    with assms(2) show ?thesis by (simp add: current_skips_def)
  qed
  then have "\<forall>t\<in>set ?due. case sessions ?s1 (t_sid t) of None \<Rightarrow> True
                       | Some se \<Rightarrow> needs_no_check (s_model se)"
    by blast
  from fold_checkStorage_skip[OF this] show ?thesis
    by (simp add: tick_def Let_def)
qed

lemma current_skips_cong:
  "current s' = current s \<Longrightarrow> sessions s' = sessions s \<Longrightarrow> current_skips s' = current_skips s"
  by (simp add: current_skips_def cong: option.case_cong)

lemma skip_settle_dead:
  assumes "inv_sessions s" "inv_cycles s" "current_skips s"
    "find (\<lambda>c. c_id c = k) (pending s) = Some c"
  shows "signal_aborted s (c_sid c)"
proof -
  from assms(4) have "c \<in> set (pending s)" by (auto dest: find_in_pending)
  with assms(2) obtain se where se: "sessions s (c_sid c) = Some se"
    "\<not> needs_no_check (s_model se)"
    unfolding inv_cycles_def by (auto split: option.splits)
  with assms(3) have "current s \<noteq> Some (c_sid c)" by (auto simp: current_skips_def)
  with inv_cur[OF assms(1) se(1)] have "aborted se" by simp
  with se(1) show ?thesis by (simp add: signal_aborted_def)
qed

lemma skip_step:
  assumes "inv_sessions s" "inv_cycles s" "current_skips s" "skip_event e"
  shows "current_skips (step fmt e s) \<and> emits (step fmt e s) = emits s \<and>
         calls (step fmt e s) = calls s \<and> storageStatus (step fmt e s) = storageStatus s"
proof (cases e)
  case (Render m opts)
  with assms(4) have m: "needs_no_check m" by (simp add: skip_event_def)
  from render_cases[of m opts s] show ?thesis
    unfolding Render step.simps
  proof (elim disjE exE conjE)
    assume "render m opts s = s"
    with assms(3) show "current_skips (render m opts s) \<and> emits (render m opts s) = emits s \<and>
         calls (render m opts s) = calls s \<and> storageStatus (render m opts s) = storageStatus s"
      by simp
  next
    fix per iv
    assume "render m opts s = effect m per iv s"
    with m show "current_skips (render m opts s) \<and> emits (render m opts s) = emits s \<and>
         calls (render m opts s) = calls s \<and> storageStatus (render m opts s) = storageStatus s"
      by (simp add: current_skips_def effect_sessions effect_calls)
  next
    fix per iv cur
    assume "render m opts s = effect m per iv (cleanup cur s)"
    with m show "current_skips (render m opts s) \<and> emits (render m opts s) = emits s \<and>
         calls (render m opts s) = calls s \<and> storageStatus (render m opts s) = storageStatus s"
      by (simp add: current_skips_def effect_sessions effect_calls)
  qed
next
  case Unmount
  show ?thesis
  proof (cases "unmounted s")
    case True
    then have "unmount s = s" by (simp add: unmount_def)
    with assms(3) show ?thesis unfolding Unmount by simp
  next
    case False
    then have "current (unmount s) = None" by (simp add: unmount_def split: option.splits)
    moreover have "emits (unmount s) = emits s \<and> calls (unmount s) = calls s \<and>
        storageStatus (unmount s) = storageStatus s"
      by (simp add: unmount_def split: option.splits)
    ultimately show ?thesis unfolding Unmount by (simp add: current_skips_def)
  qed
next
  case Tick
  from tick_skip[OF assms(1,3)] assms(3) current_skips_cong[of "tick s" s] show ?thesis
    unfolding Tick by simp
next
  case (HasEnoughSpaceSettled k r)
  have cs: "current_skips (settle_hasEnoughSpace k r s)"
    using assms(3) current_skips_cong[of "settle_hasEnoughSpace k r s" s] by simp
  show ?thesis
  proof (cases "find (\<lambda>c. c_id c = k) (pending s)")
    case None
    with assms(3) show ?thesis
      unfolding HasEnoughSpaceSettled by (simp add: settle_hasEnoughSpace_idle)
  next
    case (Some c)
    from settle_hasEnoughSpace_dead[OF Some skip_settle_dead[OF assms(1-3) Some], of r] cs
    show ?thesis unfolding HasEnoughSpaceSettled by (auto simp: unsuspend_def)
  qed
next
  case (FreeDiskSettled k r)
  have cs: "current_skips (settle_getFreeDiskStorage fmt k r s)"
    using assms(3) current_skips_cong[of "settle_getFreeDiskStorage fmt k r s" s] by simp
  show ?thesis
  proof (cases "find (\<lambda>c. c_id c = k) (pending s)")
    case None
    with assms(3) show ?thesis
      unfolding FreeDiskSettled by (simp add: settle_getFreeDiskStorage_idle)
  next
    case (Some c)
    from settle_getFreeDiskStorage_dead[OF Some skip_settle_dead[OF assms(1-3) Some], of fmt r]
      cs
    show ?thesis unfolding FreeDiskSettled by (auto simp: unsuspend_def)
  qed
qed

lemma skip_run:
  assumes "inv_sessions s" "inv_cycles s" "current_skips s" "\<forall>e\<in>set es. skip_event e"
  shows "emits (run fmt es s) = emits s \<and> calls (run fmt es s) = calls s \<and>
         storageStatus (run fmt es s) = storageStatus s"
  using assms
proof (induction es arbitrary: s)
  case Nil
  then show ?case by (simp add: run_def)
next
  case (Cons e es)
  from Cons.prems(4) have e: "skip_event e" and es: "\<forall>e\<in>set es. skip_event e" by simp_all
  note st = skip_step[OF Cons.prems(1-3) e, of fmt]
  have "run fmt (e # es) s = run fmt es (step fmt e s)" by (simp add: run_def)
  with Cons.IH[OF inv_sessions_step[OF Cons.prems(1)] inv_cycles_step[OF Cons.prems(1,2)] _ es,
      of fmt] st
  show ?case by simp
qed

text \<open>Status updates come from the mounted session, whose number never decreases.\<close>

lemma current_lower_step:
  assumes "N \<le> next_sid s" "\<forall>c. current s = Some c \<longrightarrow> N \<le> c"
  shows "N \<le> next_sid (step fmt e s) \<and> (\<forall>c. current (step fmt e s) = Some c \<longrightarrow> N \<le> c)"
proof (cases e)
  case (Render m opts)
  from render_cases[of m opts s] assms show ?thesis
    unfolding Render by auto
next
  case Unmount
  from unmount_cases[of s] assms show ?thesis
    unfolding Unmount by auto
next
  case Tick
  with assms show ?thesis by simp
next
  case (HasEnoughSpaceSettled k r)
  with assms show ?thesis by simp
next
  case (FreeDiskSettled k r)
  with assms show ?thesis by simp
qed

lemma emits_bound_run:
  assumes "inv_sessions s" "N \<le> next_sid s" "\<forall>c. current s = Some c \<longrightarrow> N \<le> c"
  shows "\<exists>zs. emits (run fmt es s) = emits s @ zs \<and> (\<forall>z\<in>set zs. N \<le> fst z) \<and>
           storageStatus (run fmt es s) = (if zs = [] then storageStatus s else snd (last zs))"
  using assms
proof (induction es arbitrary: s)
  case Nil
  then show ?case by (simp add: run_def)
next
  case (Cons e es)
  let ?s1 = "step fmt e s"
  have i1: "inv_sessions ?s1" by (rule inv_sessions_step[OF Cons.prems(1)])
  from current_lower_step[OF Cons.prems(2,3), of fmt e]
  have lo: "N \<le> next_sid ?s1" "\<forall>c. current ?s1 = Some c \<longrightarrow> N \<le> c" by simp_all
  from step_extend[OF Cons.prems(1), of fmt e] obtain zs1 where
    z1: "emits ?s1 = emits s @ zs1" "\<forall>z\<in>set zs1. live ?s1 (fst z)"
      "storageStatus ?s1 = (if zs1 = [] then storageStatus s else snd (last zs1))"
    unfolding logs_extend_def by blast
  have b1: "\<forall>z\<in>set zs1. N \<le> fst z"
  proof
    fix z
    assume "z \<in> set zs1"
    with z1(2) have "live ?s1 (fst z)" by simp
    from live_current[OF i1 this] lo(2) show "N \<le> fst z" by simp
  qed
  from Cons.IH[OF i1 lo] obtain zs2 where
    z2: "emits (run fmt es ?s1) = emits ?s1 @ zs2" "\<forall>z\<in>set zs2. N \<le> fst z"
      "storageStatus (run fmt es ?s1) =
         (if zs2 = [] then storageStatus ?s1 else snd (last zs2))"
    by blast
  have r: "run fmt (e # es) s = run fmt es ?s1" by (simp add: run_def)
  show ?case
  proof (intro exI[of _ "zs1 @ zs2"] conjI)
    show "emits (run fmt (e # es) s) = emits s @ zs1 @ zs2" using r z1(1) z2(1) by simp
    show "\<forall>z\<in>set (zs1 @ zs2). N \<le> fst z" using b1 z2(2) by auto
    show "storageStatus (run fmt (e # es) s) =
      (if zs1 @ zs2 = [] then storageStatus s else snd (last (zs1 @ zs2)))"
      using r z1(3) z2(3) by simp
  qed
qed

subsection \<open>Renders\<close>

lemma render_frame:
  "storageStatus (render m opts s) = storageStatus s \<and> emits (render m opts s) = emits s"
  by (simp add: render_def Let_def split: option.splits)

lemma render_skips:
  assumes "inv_sessions s" "needs_no_check m"
  shows "current_skips (render m opts s)"
proof (cases "unmounted s")
  case True
  with inv_unmounted[OF assms(1)] show ?thesis
    by (simp add: render_def current_skips_def)
next
  case False
  show ?thesis
  proof (cases "current s")
    case None
    with False assms(2) show ?thesis
      by (simp add: render_def Let_def current_skips_def effect_sessions)
  next
    case (Some cur)
    show ?thesis
    proof (cases "sessions s cur")
      case None
      with False Some show ?thesis by (simp add: render_def Let_def current_skips_def)
    next
      case se: (Some se)
      with False Some assms(2) show ?thesis
        by (auto simp: render_def Let_def current_skips_def effect_sessions)
    qed
  qed
qed

lemma render_restart:
  assumes "inv_sessions s" "current s = Some old" "sessions s old = Some se"
    and "per = (case enablePeriodicCheck opts of None \<Rightarrow> True | Some b \<Rightarrow> b)"
    and "iv = (case checkInterval opts of None \<Rightarrow> 10000 | Some n \<Rightarrow> n)"
    and "s_model se \<noteq> m \<or> s_periodic se \<noteq> per \<or> s_interval se \<noteq> iv"
  shows "render m opts s = effect m per iv (cleanup old s)"
proof -
  have "\<not> unmounted s" using inv_unmounted[OF assms(1)] assms(2) by auto
  then show ?thesis using assms(2-6) by (auto simp: render_def Let_def)
qed

subsection \<open>Counting check cycles\<close>

lemma nchecks_fresh: "\<forall>x\<in>set (checks s). x < N \<Longrightarrow> nchecks N s = 0"
  by (auto simp: nchecks_def filter_empty_conv)

lemma inflight_fresh: "\<forall>c\<in>set (pending s). c_sid c < N \<Longrightarrow> inflight N s = []"
  by (auto simp: inflight_def filter_empty_conv)

lemma pending_bound:
  assumes "inv_sessions s" "c \<in> set (pending s)"
  shows "c_sid c < next_sid s"
  using inv_pending[OF assms] inv_dom[OF assms(1), of "c_sid c"] by simp

lemma effect_pending_eq:
  "pending (effect m per iv s) =
     pending s @ (if needs_no_check m then []
        else [\<lparr>c_id = next_cid s, c_sid = next_sid s, c_stage = AwaitHasEnoughSpace\<rparr>])"
  by (simp add: effect_def Let_def checkStorage_def)

lemma effect_counts:
  assumes "\<forall>x\<in>set (checks s). x < next_sid s" "\<forall>c\<in>set (pending s). c_sid c < next_sid s"
  shows "nchecks sid (effect m per iv s) = (if sid = next_sid s then 1 else nchecks sid s) \<and>
         length (inflight sid (effect m per iv s)) \<le>
           (if sid = next_sid s then 1 else length (inflight sid s))"
  using nchecks_fresh[OF assms(1)] inflight_fresh[OF assms(2)]
  by (auto simp: nchecks_def inflight_def effect_pending_eq)

lemma cleanup_counts:
  "nchecks sid (cleanup cur s) = nchecks sid s" "inflight sid (cleanup cur s) = inflight sid s"
  by (simp_all add: nchecks_def inflight_def)

lemma checkStorage_counts:
  assumes "sessions s sid' \<noteq> None"
  shows "nchecks sid (checkStorage sid' s) = nchecks sid s + (if sid' = sid then 1 else 0) \<and>
         length (inflight sid (checkStorage sid' s)) \<le>
           length (inflight sid s) + (if sid' = sid then 1 else 0)"
  using assms
  by (auto simp: nchecks_def inflight_def checkStorage_def Let_def split: option.splits)

lemma fold_checkStorage_counts:
  assumes "\<forall>t\<in>set ts. sessions s (t_sid t) \<noteq> None"
  shows "nchecks sid (fold (\<lambda>x. checkStorage (t_sid x)) ts s) =
           nchecks sid s + length (filter (\<lambda>t. t_sid t = sid) ts) \<and>
         length (inflight sid (fold (\<lambda>x. checkStorage (t_sid x)) ts s)) \<le>
           length (inflight sid s) + length (filter (\<lambda>t. t_sid t = sid) ts)"
  using assms
proof (induction ts arbitrary: s)
  case Nil
  then show ?case by simp
next
  case (Cons t ts)
  from Cons.prems have "sessions s (t_sid t) \<noteq> None" by simp
  note a = checkStorage_counts[OF this, of sid]
  have "\<forall>x\<in>set ts. sessions (checkStorage (t_sid t) s) (t_sid x) \<noteq> None"
    using Cons.prems by simp
  note b = Cons.IH[OF this]
  from a b show ?case by auto
qed

lemma tick_counts:
  assumes "inv_sessions s"
  shows "nchecks sid (tick s) =
           nchecks sid s +
           length (filter (\<lambda>t. t_sid t = sid) (filter (\<lambda>x. t_due x \<le> Suc (now s)) (timers s))) \<and>
         length (inflight sid (tick s)) \<le>
           length (inflight sid s) +
           length (filter (\<lambda>t. t_sid t = sid) (filter (\<lambda>x. t_due x \<le> Suc (now s)) (timers s)))"
proof -
  let ?s1 = "s\<lparr>now := Suc (now s), timers := map (reschedule (Suc (now s))) (timers s)\<rparr>"
  let ?due = "filter (\<lambda>x. t_due x \<le> Suc (now s)) (timers s)"
  have "sessions ?s1 (t_sid t) \<noteq> None" if "t \<in> set ?due" for t
  proof -
    from that have "t \<in> set (timers s)" by simp
    from timer_session[OF assms this] show ?thesis by auto
  qed
  then have "\<forall>t\<in>set ?due. sessions ?s1 (t_sid t) \<noteq> None" by blast
  from fold_checkStorage_counts[OF this, of sid]
  show ?thesis by (simp add: tick_def Let_def nchecks_def inflight_def)
qed

lemma filter_drop_le:
  "length (filter (\<lambda>x. c_id x \<noteq> k \<and> c_sid x = sid) xs) \<le>
     length (filter (\<lambda>x. c_sid x = sid) xs)"
  by (induction xs) auto

lemma filter_drop_one:
  "c \<in> set xs \<Longrightarrow>
   Suc (length (filter (\<lambda>x. c_id x \<noteq> c_id c \<and> c_sid x = c_sid c) xs)) \<le>
     length (filter (\<lambda>x. c_sid x = c_sid c) xs)"
  by (induction xs) (auto simp: filter_drop_le le_SucI)

lemma settle_hasEnoughSpace_shape:
  "pending (settle_hasEnoughSpace k r s) = pending s \<or>
   pending (settle_hasEnoughSpace k r s) = filter (\<lambda>c. c_id c \<noteq> k) (pending s) \<or>
   (\<exists>c. c \<in> set (pending s) \<and> c_id c = k \<and>
      pending (settle_hasEnoughSpace k r s) =
        filter (\<lambda>c. c_id c \<noteq> k) (pending s) @ [c\<lparr>c_stage := AwaitFreeDisk\<rparr>])"
proof (cases "find (\<lambda>c. c_id c = k) (pending s)")
  case None
  then show ?thesis by (simp add: settle_hasEnoughSpace_idle)
next
  case (Some c)
  note in_p = find_in_pending[OF Some]
  show ?thesis
  proof (cases "c_stage c = AwaitHasEnoughSpace")
    case False
    with Some show ?thesis by (simp add: settle_hasEnoughSpace_idle)
  next
    case True
    from settle_hasEnoughSpace_cases[OF Some True, of r] in_p show ?thesis
      by (cases r) (auto simp: unsuspend_def setStorageStatus_def split: if_splits)
  qed
qed

lemma settle_getFreeDiskStorage_shape:
  "pending (settle_getFreeDiskStorage fmt k r s) = pending s \<or>
   pending (settle_getFreeDiskStorage fmt k r s) = filter (\<lambda>c. c_id c \<noteq> k) (pending s)"
  by (cases r)
    (auto simp: settle_getFreeDiskStorage_def resume_defs unsuspend_def
      split: option.splits)

lemma settle_hasEnoughSpace_inflight:
  "length (inflight sid (settle_hasEnoughSpace k r s)) \<le> length (inflight sid s)"
proof -
  from settle_hasEnoughSpace_shape[of k r s]
  consider "pending (settle_hasEnoughSpace k r s) = pending s"
    | "pending (settle_hasEnoughSpace k r s) = filter (\<lambda>c. c_id c \<noteq> k) (pending s)"
    | c where "c \<in> set (pending s)" "c_id c = k"
        "pending (settle_hasEnoughSpace k r s) =
           filter (\<lambda>c. c_id c \<noteq> k) (pending s) @ [c\<lparr>c_stage := AwaitFreeDisk\<rparr>]"
    by blast
  then show ?thesis
  proof cases
    case 1
    then show ?thesis by (simp add: inflight_def)
  next
    case 2
    then show ?thesis using filter_drop_le[of k sid "pending s"] by (simp add: inflight_def)
  next
    case 3
    show ?thesis
    proof (cases "c_sid c = sid")
      case True
      with 3 filter_drop_one[OF 3(1)] show ?thesis by (simp add: inflight_def)
    next
      case False
      with 3 filter_drop_le[of k sid "pending s"] show ?thesis by (simp add: inflight_def)
    qed
  qed
qed

lemma settle_getFreeDiskStorage_inflight:
  "length (inflight sid (settle_getFreeDiskStorage fmt k r s)) \<le> length (inflight sid s)"
  using settle_getFreeDiskStorage_shape[of fmt k r s] filter_drop_le[of k sid "pending s"]
  by (auto simp: inflight_def)

lemma inv_checks_init: "inv_checks init"
  by (simp add: inv_checks_def init_def nchecks_def inflight_def)

lemma inv_checks_effect:
  assumes "inv_checks s" "\<forall>c\<in>set (pending s). c_sid c < next_sid s"
    "sessions s (next_sid s) = None"
  shows "inv_checks (effect m per iv s)"
proof -
  from assms(1) have b: "\<forall>x\<in>set (checks s). x < next_sid s"
    and np: "\<And>sid se. sessions s sid = Some se \<Longrightarrow> \<not> s_periodic se \<Longrightarrow> nchecks sid s = 1"
    and fl: "\<And>sid. length (inflight sid s) \<le> nchecks sid s"
    unfolding inv_checks_def by blast+
  note ec = effect_counts[OF b assms(2)]
  show ?thesis unfolding inv_checks_def
  proof (intro conjI allI impI ballI)
    fix x
    assume "x \<in> set (checks (effect m per iv s))"
    with b show "x < next_sid (effect m per iv s)" by (auto simp: less_Suc_eq)
  next
    fix sid se
    assume a: "sessions (effect m per iv s) sid = Some se \<and> \<not> s_periodic se"
    show "nchecks sid (effect m per iv s) = 1"
    proof (cases "sid = next_sid s")
      case True
      with ec[of sid] show ?thesis by simp
    next
      case False
      with a have "sessions s sid = Some se" by (simp add: effect_sessions)
      from np[OF this] a ec[of sid] False show ?thesis by simp
    qed
  next
    fix sid
    from ec[of sid m per iv] fl[of sid]
    show "length (inflight sid (effect m per iv s)) \<le> nchecks sid (effect m per iv s)"
      by (auto split: if_splits)
  qed
qed

lemma inv_checks_cleanup: "inv_checks s \<Longrightarrow> inv_checks (cleanup cur s)"
  unfolding inv_checks_def
  by (auto simp: cleanup_counts cleanup_sessions split: option.splits if_splits)

lemma inv_checks_step:
  assumes "inv_sessions s" "inv_checks s"
  shows "inv_checks (step fmt e s)"
proof (cases e)
  case (Render m opts)
  note fr = inv_fresh[OF assms(1)]
  have pb: "\<forall>c\<in>set (pending s). c_sid c < next_sid s"
    using pending_bound[OF assms(1)] by blast
  from render_cases[of m opts s] show ?thesis
    unfolding Render step.simps
  proof (elim disjE exE conjE)
    assume "render m opts s = s"
    with assms(2) show "inv_checks (render m opts s)" by simp
  next
    fix per iv
    assume "render m opts s = effect m per iv s"
    with inv_checks_effect[OF assms(2) pb fr] show "inv_checks (render m opts s)" by simp
  next
    fix per iv cur
    assume "render m opts s = effect m per iv (cleanup cur s)"
    moreover have "\<forall>c\<in>set (pending (cleanup cur s)). c_sid c < next_sid (cleanup cur s)"
      using pb by simp
    ultimately show "inv_checks (render m opts s)"
      using inv_checks_effect[OF inv_checks_cleanup[OF assms(2)] _ cleanup_fresh[OF fr]]
      by simp
  qed
next
  case Unmount
  from unmount_cases[of s] show ?thesis
    unfolding Unmount step.simps
  proof (elim disjE exE conjE)
    assume "unmount s = s"
    with assms(2) show "inv_checks (unmount s)" by simp
  next
    assume "unmount s = s\<lparr>unmounted := True\<rparr>"
    with assms(2) show "inv_checks (unmount s)"
      by (simp add: inv_checks_def nchecks_def inflight_def)
  next
    fix cur
    assume "unmount s = (cleanup cur s)\<lparr>current := None, unmounted := True\<rparr>"
    with inv_checks_cleanup[OF assms(2), of cur] show "inv_checks (unmount s)"
      by (simp add: inv_checks_def nchecks_def inflight_def)
  qed
next
  case Tick
  from assms(2) have b: "\<forall>x\<in>set (checks s). x < next_sid s"
    and np: "\<And>sid se. sessions s sid = Some se \<Longrightarrow> \<not> s_periodic se \<Longrightarrow> nchecks sid s = 1"
    and fl: "\<And>sid. length (inflight sid s) \<le> nchecks sid s"
    unfolding inv_checks_def by blast+
  have i1: "inv_sessions (tick s)" using inv_sessions_step[OF assms(1), of fmt Tick] by simp
  show ?thesis unfolding Tick step.simps inv_checks_def
  proof (intro conjI allI impI ballI)
    fix x
    assume x: "x \<in> set (checks (tick s))"
    from tick_logs[OF assms(1)] obtain xs where
      "checks (tick s) = checks s @ xs" "\<forall>x\<in>set xs. live (tick s) x"
      by blast
    with x b consider "x < next_sid s" | "live (tick s) x" by auto
    then show "x < next_sid (tick s)"
    proof cases
      case 1
      then show ?thesis by simp
    next
      case 2
      then have "sessions (tick s) x \<noteq> None" by (auto simp: live_def split: option.splits)
      with inv_dom[OF i1, of x] show ?thesis by simp
    qed
  next
    fix sid se
    assume a: "sessions (tick s) sid = Some se \<and> \<not> s_periodic se"
    then have se: "sessions s sid = Some se" "\<not> s_periodic se" by simp_all
    have "t_sid t \<noteq> sid" if "t \<in> set (timers s)" for t
    proof -
      from timer_session[OF assms(1) that] obtain se' where
        "sessions s (t_sid t) = Some se'" "s_periodic se'"
        by blast
      with se show ?thesis by auto
    qed
    then have "filter (\<lambda>t. t_sid t = sid)
        (filter (\<lambda>x. t_due x \<le> Suc (now s)) (timers s)) = []"
      by (auto simp: filter_empty_conv)
    with tick_counts[OF assms(1), of sid] np[OF se] show "nchecks sid (tick s) = 1" by simp
  next
    fix sid
    from tick_counts[OF assms(1), of sid] fl[of sid]
    show "length (inflight sid (tick s)) \<le> nchecks sid (tick s)" by simp
  qed
next
  case (HasEnoughSpaceSettled k r)
  have n: "nchecks sid (settle_hasEnoughSpace k r s) = nchecks sid s" for sid
    by (simp add: nchecks_def)
  from assms(2) have b: "\<forall>x\<in>set (checks s). x < next_sid s"
    and np: "\<And>sid se. sessions s sid = Some se \<Longrightarrow> \<not> s_periodic se \<Longrightarrow> nchecks sid s = 1"
    and fl: "\<And>sid. length (inflight sid s) \<le> nchecks sid s"
    unfolding inv_checks_def by blast+
  show ?thesis unfolding HasEnoughSpaceSettled step.simps inv_checks_def
  proof (intro conjI allI impI ballI)
    fix x
    assume "x \<in> set (checks (settle_hasEnoughSpace k r s))"
    with b show "x < next_sid (settle_hasEnoughSpace k r s)" by simp
  next
    fix sid se
    assume "sessions (settle_hasEnoughSpace k r s) sid = Some se \<and> \<not> s_periodic se"
    with np[of sid se] n show "nchecks sid (settle_hasEnoughSpace k r s) = 1" by simp
  next
    fix sid
    from settle_hasEnoughSpace_inflight[of sid k r s] fl[of sid] n[of sid]
    show "length (inflight sid (settle_hasEnoughSpace k r s)) \<le>
          nchecks sid (settle_hasEnoughSpace k r s)"
      by simp
  qed
next
  case (FreeDiskSettled k r)
  have n: "nchecks sid (settle_getFreeDiskStorage fmt k r s) = nchecks sid s" for sid
    by (simp add: nchecks_def)
  from assms(2) have b: "\<forall>x\<in>set (checks s). x < next_sid s"
    and np: "\<And>sid se. sessions s sid = Some se \<Longrightarrow> \<not> s_periodic se \<Longrightarrow> nchecks sid s = 1"
    and fl: "\<And>sid. length (inflight sid s) \<le> nchecks sid s"
    unfolding inv_checks_def by blast+
  show ?thesis unfolding FreeDiskSettled step.simps inv_checks_def
  proof (intro conjI allI impI ballI)
    fix x
    assume "x \<in> set (checks (settle_getFreeDiskStorage fmt k r s))"
    with b show "x < next_sid (settle_getFreeDiskStorage fmt k r s)" by simp
  next
    fix sid se
    assume "sessions (settle_getFreeDiskStorage fmt k r s) sid = Some se \<and> \<not> s_periodic se"
    with np[of sid se] n show "nchecks sid (settle_getFreeDiskStorage fmt k r s) = 1" by simp
  next
    fix sid
    from settle_getFreeDiskStorage_inflight[of sid fmt k r s] fl[of sid] n[of sid]
    show "length (inflight sid (settle_getFreeDiskStorage fmt k r s)) \<le>
          nchecks sid (settle_getFreeDiskStorage fmt k r s)"
      by simp
  qed
qed

lemma inv_checks_run:
  "inv_sessions s \<Longrightarrow> inv_checks s \<Longrightarrow> inv_checks (run fmt es s)"
proof (induction es arbitrary: s)
  case Nil
  then show ?case by (simp add: run_def)
next
  case (Cons e es)
  have "run fmt (e # es) s = run fmt es (step fmt e s)" by (simp add: run_def)
  with Cons.IH[OF inv_sessions_step[OF Cons.prems(1)] inv_checks_step[OF Cons.prems]]
  show ?case by simp
qed

lemma inv_checks_reach: "inv_checks (run fmt es init)"
  by (rule inv_checks_run[OF inv_sessions_init inv_checks_init])

subsection \<open>The start of a session\<close>

lemma render_started:
  assumes "next_sid (render m opts s) \<noteq> next_sid s"
    and "per = (case enablePeriodicCheck opts of None \<Rightarrow> True | Some b \<Rightarrow> b)"
    and "iv = (case checkInterval opts of None \<Rightarrow> 10000 | Some n \<Rightarrow> n)"
  shows "(current s = None \<and> render m opts s = effect m per iv s) \<or>
         (\<exists>cur. current s = Some cur \<and> sessions s cur \<noteq> None \<and>
            render m opts s = effect m per iv (cleanup cur s))"
  using assms by (auto simp: render_def Let_def split: option.splits if_splits)

lemma started_session:
  assumes "next_sid (render m opts s) \<noteq> next_sid s"
    and "per = (case enablePeriodicCheck opts of None \<Rightarrow> True | Some b \<Rightarrow> b)"
    and "iv = (case checkInterval opts of None \<Rightarrow> 10000 | Some n \<Rightarrow> n)"
  shows "sessions (render m opts s) (next_sid s) =
           Some \<lparr>s_model = m, s_periodic = per, s_interval = iv, aborted = False,
                 intervalId = (if per then Some (next_timer s) else None)\<rparr>"
  using render_started[OF assms] by (auto simp: effect_sessions)

lemma reach_render: "render m opts (run fmt es init) = run fmt (es @ [Render m opts]) init"
  by (simp add: run_def)

lemma reach_run_render:
  "run fmt es' (render m opts (run fmt es init)) = run fmt (es @ Render m opts # es') init"
  by (simp add: run_def)

lemma pending_dead:
  assumes "inv_sessions s" "c \<in> set (pending s)" "current s \<noteq> Some (c_sid c)"
  shows "signal_aborted s (c_sid c)"
proof -
  from inv_pending[OF assms(1,2)] obtain se where se: "sessions s (c_sid c) = Some se" by auto
  from inv_cur[OF assms(1) se] assms(3) have "aborted se" by simp
  with se show ?thesis by (simp add: signal_aborted_def)
qed

subsection \<open>Check cycles and time\<close>

lemma quiet_cases:
  assumes "quiet e"
  obtains "e = Tick" | k r where "e = HasEnoughSpaceSettled k r"
    | k r where "e = FreeDiskSettled k r"
  using assms by (cases e) (simp_all add: quiet_def)

lemma ticks_Cons: "ticks (e # es) = (if e = Tick then Suc (ticks es) else ticks es)"
  by (simp add: ticks_def)

lemma tick_single:
  assumes "inv_sessions s" "timers s = [t]"
  shows "timers (tick s) = [reschedule (Suc (now s)) t] \<and>
         nchecks (t_sid t) (tick s) =
           nchecks (t_sid t) s + (if t_due t \<le> Suc (now s) then 1 else 0)"
  using tick_counts[OF assms(1), of "t_sid t"] assms(2) by simp

lemma tick_count_run:
  assumes "inv_sessions s" "timers s = [t]" "t_sid t = sid" "P = max 1 (t_period t)"
    "t_due t = now s + k" "1 \<le> k" "k \<le> P" "\<forall>e\<in>set es. quiet e"
  shows "nchecks sid (run fmt es s) = nchecks sid s + (ticks es + P - k) div P"
  using assms
proof (induction es arbitrary: s t k)
  case Nil
  then show ?case by (simp add: run_def ticks_def)
next
  case (Cons e es)
  from Cons.prems(8) have qe: "quiet e" and qes: "\<forall>e\<in>set es. quiet e" by simp_all
  have r: "run fmt (e # es) s = run fmt es (step fmt e s)" by (simp add: run_def)
  have i1: "inv_sessions (step fmt e s)" by (rule inv_sessions_step[OF Cons.prems(1)])
  from qe show ?case
  proof (cases rule: quiet_cases)
    case 1
    note ts = tick_single[OF Cons.prems(1,2)]
    show ?thesis
    proof (cases "k = 1")
      case True
      let ?t' = "t\<lparr>t_due := Suc (now s) + P\<rparr>"
      have due: "t_due t \<le> Suc (now s)" using Cons.prems(5) True by simp
      have t1: "timers (step fmt e s) = [?t']"
        using ts due Cons.prems(4) 1 by (simp add: reschedule_def)
      have n1: "nchecks sid (step fmt e s) = nchecks sid s + 1"
        using ts due Cons.prems(3) 1 by simp
      have P1: "1 \<le> P" using Cons.prems(4) by simp
      have ih: "nchecks sid (run fmt es (step fmt e s)) =
            nchecks sid (step fmt e s) + (ticks es + P - P) div P"
      proof (rule Cons.IH[OF i1 t1 _ _ _ P1 _ qes])
        show "t_sid ?t' = sid" using Cons.prems(3) by simp
        show "P = max 1 (t_period ?t')" using Cons.prems(4) by simp
        show "t_due ?t' = now (step fmt e s) + P" unfolding 1 by simp
        show "P \<le> P" by simp
      qed
      have te: "ticks (e # es) = Suc (ticks es)" unfolding 1 by (simp add: ticks_Cons)
      have ar: "Suc (ticks es) + P - k = ticks es + P" unfolding True by simp
      have dv: "(ticks es + P) div P = ticks es div P + 1"
      proof -
        from P1 have "P \<noteq> 0" by simp
        then show ?thesis by (rule div_add_self2)
      qed
      have z: "ticks es + P - P = ticks es" by simp
      show ?thesis unfolding r te ar dv using ih n1 unfolding z by simp
    next
      case False
      with Cons.prems(6) have k2: "2 \<le> k" by simp
      have ndue: "\<not> t_due t \<le> Suc (now s)" using Cons.prems(5) k2 by simp
      have t1: "timers (step fmt e s) = [t]"
        using ts ndue 1 by (simp add: reschedule_def)
      have n1: "nchecks sid (step fmt e s) = nchecks sid s"
        using ts ndue Cons.prems(3) 1 by simp
      have d1: "t_due t = now (step fmt e s) + (k - 1)" using Cons.prems(5) k2 1 by simp
      have ih: "nchecks sid (run fmt es (step fmt e s)) =
            nchecks sid (step fmt e s) + (ticks es + P - (k - 1)) div P"
      proof (rule Cons.IH[OF i1 t1 Cons.prems(3,4) d1 _ _ qes])
        show "1 \<le> k - 1" using k2 by simp
        show "k - 1 \<le> P" using Cons.prems(7) by simp
      qed
      have te: "ticks (e # es) = Suc (ticks es)" unfolding 1 by (simp add: ticks_Cons)
      have ar: "Suc (ticks es) + P - k = ticks es + P - (k - 1)"
        using k2 Cons.prems(7) by arith
      show ?thesis unfolding r te ar using ih n1 by (simp only:)
    qed
  next
    case (2 k' r')
    have f: "nchecks sid (step fmt e s) = nchecks sid s" "timers (step fmt e s) = [t]"
      "t_due t = now (step fmt e s) + k"
      unfolding 2 using Cons.prems(2,5) by (simp_all add: nchecks_def)
    have te: "ticks (e # es) = ticks es" unfolding 2 by (simp add: ticks_Cons)
    from Cons.IH[OF i1 f(2) Cons.prems(3,4) f(3) Cons.prems(6,7) qes]
    have "nchecks sid (run fmt es (step fmt e s)) =
          nchecks sid (step fmt e s) + (ticks es + P - k) div P" .
    then show ?thesis unfolding r te f(1) .
  next
    case (3 k' r')
    have f: "nchecks sid (step fmt e s) = nchecks sid s" "timers (step fmt e s) = [t]"
      "t_due t = now (step fmt e s) + k"
      unfolding 3 using Cons.prems(2,5) by (simp_all add: nchecks_def)
    have te: "ticks (e # es) = ticks es" unfolding 3 by (simp add: ticks_Cons)
    from Cons.IH[OF i1 f(2) Cons.prems(3,4) f(3) Cons.prems(6,7) qes]
    have "nchecks sid (run fmt es (step fmt e s)) =
          nchecks sid (step fmt e s) + (ticks es + P - k) div P" .
    then show ?thesis unfolding r te f(1) .
  qed
qed

lemma started_periodic:
  assumes "inv_sessions s" "inv_checks s" "next_sid (render m opts s) \<noteq> next_sid s"
    and "iv = (case checkInterval opts of None \<Rightarrow> 10000 | Some n \<Rightarrow> n)"
    and "enablePeriodicCheck opts \<noteq> Some False"
  shows "timers (render m opts s) =
           [\<lparr>t_id = next_timer s, t_sid = next_sid s, t_period = iv, t_due = now s + max 1 iv\<rparr>] \<and>
         now (render m opts s) = now s \<and>
         nchecks (next_sid s) (render m opts s) = 1"
proof -
  have per: "True = (case enablePeriodicCheck opts of None \<Rightarrow> True | Some b \<Rightarrow> b)"
    using assms(5) by (auto split: option.splits)
  from assms(2) have b: "\<forall>x\<in>set (checks s). x < next_sid s"
    unfolding inv_checks_def by blast
  have pb: "\<forall>c\<in>set (pending s). c_sid c < next_sid s"
    using pending_bound[OF assms(1)] by blast
  from render_started[OF assms(3) per assms(4)]
  consider "current s = None" "render m opts s = effect m True iv s"
    | cur where "current s = Some cur" "render m opts s = effect m True iv (cleanup cur s)"
    by auto
  then show ?thesis
  proof cases
    case 1
    from no_current_no_timers[OF assms(1) 1(1)] effect_counts[OF b pb, of "next_sid s" m True iv]
    show ?thesis unfolding 1(2) by (simp add: effect_timers)
  next
    case 2
    have b': "\<forall>x\<in>set (checks (cleanup cur s)). x < next_sid (cleanup cur s)"
      using b by simp
    have pb': "\<forall>c\<in>set (pending (cleanup cur s)). c_sid c < next_sid (cleanup cur s)"
      using pb by simp
    from cleanup_current_timers[OF assms(1) 2(1)]
      effect_counts[OF b' pb', of "next_sid s" m True iv]
    show ?thesis unfolding 2(2) by (simp add: effect_timers)
  qed
qed

lemma started_check_count:
  assumes "s0 = run fmt es0 init"
    and "next_sid (render m opts s0) \<noteq> next_sid s0"
    and "enablePeriodicCheck opts \<noteq> Some False"
    and "checkInterval opts = None \<or> checkInterval opts = Some 10000"
    and "\<forall>e\<in>set es. quiet e"
  shows "nchecks (next_sid s0) (run fmt es (render m opts s0)) = ticks es div 10000 + 1"
proof -
  have i: "inv_sessions s0" unfolding assms(1) by (rule inv_sessions_reach)
  have ic: "inv_checks s0" unfolding assms(1) by (rule inv_checks_reach)
  have iv: "10000 = (case checkInterval opts of None \<Rightarrow> 10000 | Some n \<Rightarrow> n)"
    using assms(4) by auto
  let ?t = "\<lparr>t_id = next_timer s0, t_sid = next_sid s0, t_period = 10000,
              t_due = now s0 + max 1 10000\<rparr>"
  from started_periodic[OF i ic assms(2) iv assms(3)]
  have t: "timers (render m opts s0) = [?t]" and n: "now (render m opts s0) = now s0"
    and c: "nchecks (next_sid s0) (render m opts s0) = 1"
    by simp_all
  have i1: "inv_sessions (render m opts s0)"
    using inv_sessions_step[OF i, of fmt "Render m opts"] by simp
  have "nchecks (next_sid s0) (run fmt es (render m opts s0)) =
        nchecks (next_sid s0) (render m opts s0) + (ticks es + 10000 - 10000) div 10000"
  proof (rule tick_count_run[OF i1 t, where P = 10000 and k = 10000])
    show "t_sid ?t = next_sid s0" by simp
    show "(10000::nat) = max 1 (t_period ?t)" by simp
    show "t_due ?t = now (render m opts s0) + 10000" by (simp add: n)
    show "(1::nat) \<le> 10000" by simp
    show "(10000::nat) \<le> 10000" by simp
    show "\<forall>e\<in>set es. quiet e" by (rule assms(5))
  qed
  with c show ?thesis by simp
qed

subsection \<open>Status updates of the mounted session\<close>





section \<open>The claims\<close>

text \<open>
  C1. In every state that a run of the hook reaches: when the session of a suspended cycle
  is aborted, resuming the cycle, whatever the settlement, changes neither the published
  status nor the list of status updates nor the timers; an aborted session never publishes
  a status again, never starts another check cycle and owns no timer, however the run goes
  on. Once the hook is unmounted no status update is published at all and no check cycle
  starts. The unmount aborts the mounted session and leaves no timer (a change of the
  model or of an option does the same, see C8).
\<close>

theorem cancelled_cycle_discards_result:
  assumes "s = run formatBytes es init"
  shows "(\<forall>sid. signal_aborted s sid \<longrightarrow>
            (\<forall>k c r. find (\<lambda>c. c_id c = k) (pending s) = Some c \<and> c_sid c = sid \<longrightarrow>
               storageStatus (settle_hasEnoughSpace k r s) = storageStatus s \<and>
               emits (settle_hasEnoughSpace k r s) = emits s \<and>
               timers (settle_hasEnoughSpace k r s) = timers s) \<and>
            (\<forall>k c r. find (\<lambda>c. c_id c = k) (pending s) = Some c \<and> c_sid c = sid \<longrightarrow>
               storageStatus (settle_getFreeDiskStorage formatBytes k r s) = storageStatus s \<and>
               emits (settle_getFreeDiskStorage formatBytes k r s) = emits s \<and>
               timers (settle_getFreeDiskStorage formatBytes k r s) = timers s) \<and>
            (\<forall>es'. emits_of sid (run formatBytes es' s) = emits_of sid s \<and>
               nchecks sid (run formatBytes es' s) = nchecks sid s \<and>
               (\<forall>t\<in>set (timers (run formatBytes es' s)). t_sid t \<noteq> sid))) \<and>
         (unmounted s \<longrightarrow>
            (\<forall>es'. emits (run formatBytes es' s) = emits s \<and>
               storageStatus (run formatBytes es' s) = storageStatus s \<and>
               checks (run formatBytes es' s) = checks s)) \<and>
         (\<forall>sid. current s = Some sid \<longrightarrow>
            signal_aborted (unmount s) sid \<and> timers (unmount s) = [] \<and>
            unmounted (unmount s))"
proof -
  have i: "inv_sessions s" unfolding assms by (rule inv_sessions_reach)
  have a: "storageStatus (settle_hasEnoughSpace k r s) = storageStatus s \<and>
               emits (settle_hasEnoughSpace k r s) = emits s \<and>
               timers (settle_hasEnoughSpace k r s) = timers s"
    if "signal_aborted s sid" "find (\<lambda>c. c_id c = k) (pending s) = Some c" "c_sid c = sid"
    for sid k c r
    using settle_hasEnoughSpace_dead[OF that(2), of r] that(1,3)
    by (auto simp: unsuspend_def)
  have b: "storageStatus (settle_getFreeDiskStorage formatBytes k r s) = storageStatus s \<and>
               emits (settle_getFreeDiskStorage formatBytes k r s) = emits s \<and>
               timers (settle_getFreeDiskStorage formatBytes k r s) = timers s"
    if "signal_aborted s sid" "find (\<lambda>c. c_id c = k) (pending s) = Some c" "c_sid c = sid"
    for sid k c r
    using settle_getFreeDiskStorage_dead[OF that(2), of formatBytes r] that(1,3)
    by (auto simp: unsuspend_def)
  have c: "emits_of sid (run formatBytes es' s) = emits_of sid s \<and>
               nchecks sid (run formatBytes es' s) = nchecks sid s \<and>
               (\<forall>t\<in>set (timers (run formatBytes es' s)). t_sid t \<noteq> sid)"
    if "signal_aborted s sid" for sid es'
  proof -
    note f = dead_frozen_run[OF i that, of formatBytes es']
    have "inv_sessions (run formatBytes es' s)" by (rule inv_sessions_run[OF i])
    with f dead_no_timer show ?thesis by blast
  qed
  have d: "emits (run formatBytes es' s) = emits s \<and>
               storageStatus (run formatBytes es' s) = storageStatus s \<and>
               checks (run formatBytes es' s) = checks s"
    if "unmounted s" for es'
    using unmounted_frozen_run[OF i that, of formatBytes es'] by simp
  have e: "signal_aborted (unmount s) sid \<and> timers (unmount s) = [] \<and> unmounted (unmount s)"
    if "current s = Some sid" for sid
  proof -
    from inv_unmounted[OF i] that have nu: "\<not> unmounted s" by auto
    from current_session[OF i that] obtain se where se: "sessions s sid = Some se" by blast
    from nu that have eq: "unmount s = (cleanup sid s)\<lparr>current := None, unmounted := True\<rparr>"
      by (simp add: unmount_def)
    from se cleanup_current_timers[OF i that] show ?thesis
      unfolding eq by (simp add: signal_aborted_def cleanup_sessions)
  qed
  from a b c d e show ?thesis by blast
qed

theorem cancelled_cycle_discards_result_witness:
  "signal_aborted (run sampleFormat [Render remoteModel fastOptions, Unmount] init) 0 \<and>
   unmounted (run sampleFormat [Render remoteModel fastOptions, Unmount] init) \<and>
   find (\<lambda>c. c_id c = 0)
     (pending (run sampleFormat [Render remoteModel fastOptions, Unmount] init)) =
     Some \<lparr>c_id = 0, c_sid = 0, c_stage = AwaitHasEnoughSpace\<rparr> \<and>
   storageStatus (run sampleFormat
     [Render remoteModel fastOptions, Unmount, HasEnoughSpaceSettled 0 (Fulfilled True),
      Tick, Tick] init) = initialStatus \<and>
   emits (run sampleFormat
     [Render remoteModel fastOptions, Unmount, HasEnoughSpaceSettled 0 (Fulfilled True),
      Tick, Tick] init) = [] \<and>
   checks (run sampleFormat
     [Render remoteModel fastOptions, Unmount, HasEnoughSpaceSettled 0 (Fulfilled True),
      Tick, Tick] init) = [0]"
  using cancelled_cycle_discards_result[where formatBytes = sampleFormat
      and es = "[Render remoteModel fastOptions, Unmount]"
      and s = "run sampleFormat [Render remoteModel fastOptions, Unmount] init"]
  by (simp add: model_defs sample_defs)

text \<open>
  C2, as stated, fails: \<open>setInterval\<close> calls \<open>checkStorage\<close> whether or not an earlier
  invocation is still waiting for \<open>hasEnoughSpace\<close>. With a check interval of 2 ms and a
  promise that has not settled after 2 ms, the mounted session, which is not aborted, has
  two checks in flight.
\<close>

theorem in_flight_checks_counterexample:
  "current (run sampleFormat [Render remoteModel fastOptions, Tick, Tick] init) = Some 0 \<and>
   \<not> signal_aborted (run sampleFormat [Render remoteModel fastOptions, Tick, Tick] init) 0 \<and>
   \<not> length (inflight 0
        (run sampleFormat [Render remoteModel fastOptions, Tick, Tick] init)) \<le> 1"
  by (simp add: model_defs sample_defs inflight_def)

text \<open>
  C2, amended. A session never has more checks in flight than the check cycles it has
  started (one at its start and one on every firing of its timer), and a session without
  periodic checking has at most one. Every check in flight that does not belong to the
  mounted session belongs to an aborted one. When a render replaces the session because an
  input changed, the effect body of the new session runs in the state that the cleanup of
  the old one has left: the old controller is aborted and no timer exists before the new
  session starts its first check; afterwards the new session has at most one check in
  flight and all others in flight belong to aborted sessions.
\<close>

theorem in_flight_checks_bounded:
  assumes "s = run formatBytes es init"
  shows "(\<forall>sid se. sessions s sid = Some se \<and> \<not> s_periodic se \<longrightarrow>
            length (inflight sid s) \<le> 1) \<and>
         (\<forall>sid. length (inflight sid s) \<le> nchecks sid s) \<and>
         (\<forall>c\<in>set (pending s). current s \<noteq> Some (c_sid c) \<longrightarrow> signal_aborted s (c_sid c)) \<and>
         (\<forall>old se m opts per iv.
            current s = Some old \<and> sessions s old = Some se \<and>
            per = (case enablePeriodicCheck opts of None \<Rightarrow> True | Some b \<Rightarrow> b) \<and>
            iv = (case checkInterval opts of None \<Rightarrow> 10000 | Some n \<Rightarrow> n) \<and>
            (s_model se \<noteq> m \<or> s_periodic se \<noteq> per \<or> s_interval se \<noteq> iv) \<longrightarrow>
            render m opts s = effect m per iv (cleanup old s) \<and>
            signal_aborted (cleanup old s) old \<and>
            timers (cleanup old s) = [] \<and>
            length (inflight (next_sid s) (render m opts s)) \<le> 1 \<and>
            (\<forall>c\<in>set (pending (render m opts s)).
               c_sid c \<noteq> next_sid s \<longrightarrow> signal_aborted (render m opts s) (c_sid c)))"
proof -
  have i: "inv_sessions s" unfolding assms by (rule inv_sessions_reach)
  have ic: "inv_checks s" unfolding assms by (rule inv_checks_reach)
  from ic have b: "\<forall>x\<in>set (checks s). x < next_sid s"
    and np: "\<And>sid se. sessions s sid = Some se \<Longrightarrow> \<not> s_periodic se \<Longrightarrow> nchecks sid s = 1"
    and fl: "\<And>sid. length (inflight sid s) \<le> nchecks sid s"
    unfolding inv_checks_def by blast+
  have 1: "length (inflight sid s) \<le> 1" if "sessions s sid = Some se" "\<not> s_periodic se"
    for sid se
    using np[OF that] fl[of sid] by simp
  have 3: "signal_aborted s (c_sid c)" if "c \<in> set (pending s)" "current s \<noteq> Some (c_sid c)"
    for c
    by (rule pending_dead[OF i that])
  have 4: "render m opts s = effect m per iv (cleanup old s) \<and>
            signal_aborted (cleanup old s) old \<and>
            timers (cleanup old s) = [] \<and>
            length (inflight (next_sid s) (render m opts s)) \<le> 1 \<and>
            (\<forall>c\<in>set (pending (render m opts s)).
               c_sid c \<noteq> next_sid s \<longrightarrow> signal_aborted (render m opts s) (c_sid c))"
    if h: "current s = Some old" "sessions s old = Some se"
      "per = (case enablePeriodicCheck opts of None \<Rightarrow> True | Some b \<Rightarrow> b)"
      "iv = (case checkInterval opts of None \<Rightarrow> 10000 | Some n \<Rightarrow> n)"
      "s_model se \<noteq> m \<or> s_periodic se \<noteq> per \<or> s_interval se \<noteq> iv"
    for old se m opts per iv
  proof -
    have eq: "render m opts s = effect m per iv (cleanup old s)"
      by (rule render_restart[OF i h])
    have d: "signal_aborted (cleanup old s) old"
      using h(2) by (simp add: signal_aborted_def cleanup_sessions)
    have t: "timers (cleanup old s) = []" by (rule cleanup_current_timers[OF i h(1)])
    have b': "\<forall>x\<in>set (checks (cleanup old s)). x < next_sid (cleanup old s)"
      using b by simp
    have pb: "\<forall>c\<in>set (pending (cleanup old s)). c_sid c < next_sid (cleanup old s)"
      using pending_bound[OF i] by simp
    from effect_counts[OF b' pb, of "next_sid s" m per iv]
    have n: "length (inflight (next_sid s) (render m opts s)) \<le> 1"
      unfolding eq by simp
    have i': "inv_sessions (render m opts s)"
      using inv_sessions_step[OF i, of formatBytes "Render m opts"] by simp
    have cur: "current (render m opts s) = Some (next_sid s)" unfolding eq by simp
    have "signal_aborted (render m opts s) (c_sid c)"
      if "c \<in> set (pending (render m opts s))" "c_sid c \<noteq> next_sid s" for c
      using pending_dead[OF i' that(1)] cur that(2) by simp
    with eq d t n show ?thesis by blast
  qed
  from 1 fl 3 4 show ?thesis by blast
qed

theorem in_flight_checks_bounded_witness:
  "sessions (run sampleFormat [Render remoteModel onceOptions, Tick, Tick] init) 0 =
     Some \<lparr>s_model = remoteModel, s_periodic = False, s_interval = 10000, aborted = False,
           intervalId = None\<rparr> \<and>
   length (inflight 0 (run sampleFormat [Render remoteModel onceOptions, Tick, Tick] init)) \<le> 1 \<and>
   current (run sampleFormat [Render remoteModel fastOptions, Tick, Tick] init) = Some 0 \<and>
   pending (render otherRemoteModel fastOptions
     (run sampleFormat [Render remoteModel fastOptions, Tick, Tick] init)) =
     [\<lparr>c_id = 0, c_sid = 0, c_stage = AwaitHasEnoughSpace\<rparr>,
      \<lparr>c_id = 1, c_sid = 0, c_stage = AwaitHasEnoughSpace\<rparr>,
      \<lparr>c_id = 2, c_sid = 1, c_stage = AwaitHasEnoughSpace\<rparr>] \<and>
   signal_aborted (render otherRemoteModel fastOptions
     (run sampleFormat [Render remoteModel fastOptions, Tick, Tick] init)) 0"
proof -
  let ?a = "run sampleFormat [Render remoteModel onceOptions, Tick, Tick] init"
  let ?b = "run sampleFormat [Render remoteModel fastOptions, Tick, Tick] init"
  let ?sa = "\<lparr>s_model = remoteModel, s_periodic = False, s_interval = 10000, aborted = False,
           intervalId = None\<rparr>"
  have a1: "sessions ?a 0 = Some ?sa" by (simp add: model_defs sample_defs)
  have a2: "\<not> s_periodic ?sa" by simp
  from in_flight_checks_bounded[OF refl, of sampleFormat
      "[Render remoteModel onceOptions, Tick, Tick]"] a1 a2
  have w1: "length (inflight 0 ?a) \<le> 1" by blast
  have b1: "current ?b = Some 0" by (simp add: model_defs sample_defs)
  have b2: "pending (render otherRemoteModel fastOptions ?b) =
     [\<lparr>c_id = 0, c_sid = 0, c_stage = AwaitHasEnoughSpace\<rparr>,
      \<lparr>c_id = 1, c_sid = 0, c_stage = AwaitHasEnoughSpace\<rparr>,
      \<lparr>c_id = 2, c_sid = 1, c_stage = AwaitHasEnoughSpace\<rparr>]"
    by (simp add: model_defs sample_defs otherRemoteModel_def)
  have b3: "signal_aborted (render otherRemoteModel fastOptions ?b) 0"
    by (simp add: model_defs sample_defs otherRemoteModel_def)
  from a1 w1 b1 b2 b3 show ?thesis by blast
qed

text \<open>
  C3. A check cycle of a session whose model is downloaded, local or of origin \<open>LOCAL\<close>
  returns at once: apart from the record that \<open>checkStorage\<close> was invoked, the state is left
  as it is (no query, no suspended cycle, no status update). When every render of the hook
  is with such a model, \<open>hasEnoughSpace\<close> is never called, no status update is published and
  the published status is the initial \<open>{isOk: true, message: ''}\<close>, whatever else happens.
\<close>

theorem local_models_are_never_checked:
  assumes "\<forall>e\<in>set es. skip_event e"
  shows "calls (run formatBytes es init) = [] \<and>
         emits (run formatBytes es init) = [] \<and>
         storageStatus (run formatBytes es init) = \<lparr>isOk = True, message = ''''\<rparr> \<and>
         (\<forall>s sid se. sessions s sid = Some se \<and>
              (isDownloaded (s_model se) \<or> isLocal (s_model se) \<or> origin (s_model se) = LOCAL) \<longrightarrow>
            checkStorage sid s = s\<lparr>checks := checks s @ [sid]\<rparr>)"
proof -
  have "current_skips init" by (simp add: current_skips_def init_def)
  from skip_run[OF inv_sessions_init inv_cycles_init this assms, of formatBytes]
  have "calls (run formatBytes es init) = [] \<and> emits (run formatBytes es init) = [] \<and>
         storageStatus (run formatBytes es init) = \<lparr>isOk = True, message = ''''\<rparr>"
    by (simp add: init_def initialStatus_def)
  moreover have "checkStorage sid s = s\<lparr>checks := checks s @ [sid]\<rparr>"
    if "sessions s sid = Some se"
      "isDownloaded (s_model se) \<or> isLocal (s_model se) \<or> origin (s_model se) = LOCAL"
    for s sid se
    using checkStorage_skip[OF that(1)] that(2) by (simp add: needs_no_check_def)
  ultimately show ?thesis by blast
qed

theorem local_models_are_never_checked_witness:
  "skip_event (Render downloadedModel fastOptions) \<and> skip_event Tick \<and>
   checks (run sampleFormat [Render downloadedModel fastOptions, Tick, Tick, Tick, Tick] init) =
     [0, 0, 0] \<and>
   calls (run sampleFormat [Render downloadedModel fastOptions, Tick, Tick, Tick, Tick] init) =
     [] \<and>
   storageStatus
     (run sampleFormat [Render downloadedModel fastOptions, Tick, Tick, Tick, Tick] init) =
     \<lparr>isOk = True, message = ''''\<rparr>"
  using local_models_are_never_checked[where formatBytes = sampleFormat
      and es = "[Render downloadedModel fastOptions, Tick, Tick, Tick, Tick]"]
  by (simp add: model_defs sample_defs skip_event_def)

text \<open>
  C4. For a session whose model is neither downloaded nor local nor of origin \<open>LOCAL\<close>, a
  check cycle starts with the call \<open>hasEnoughSpace(model)\<close>. While the session is not
  aborted: when that promise is fulfilled with \<open>true\<close> the cycle publishes
  \<open>{isOk: true, message: ''}\<close> and asks nothing else; when it is fulfilled with \<open>false\<close> the
  cycle calls \<open>getFreeDiskStorage('important')\<close>, leaves the status as it is and waits; when
  that second promise is fulfilled with \<open>freeDisk\<close> the cycle publishes \<open>isOk: false\<close> with the
  message \<open>Storage low! Model <formatBytes(model.size)> > <formatBytes(freeDisk)> free\<close>.
  No other event makes a call of \<open>getFreeDiskStorage\<close>: the number of such calls changes
  only when \<open>hasEnoughSpace\<close> is fulfilled with \<open>false\<close> for a suspended cycle of a session
  that is not aborted.
\<close>

theorem check_cycle_outcomes:
  assumes "sessions s sid = Some se"
    and "\<not> aborted se"
    and "\<not> isDownloaded (s_model se)" and "\<not> isLocal (s_model se)"
    and "origin (s_model se) \<noteq> LOCAL"
  shows "calls (checkStorage sid s) = calls s @ [(sid, HasEnoughSpace (s_model se))] \<and>
         pending (checkStorage sid s) =
           pending s @ [\<lparr>c_id = next_cid s, c_sid = sid, c_stage = AwaitHasEnoughSpace\<rparr>] \<and>
         (\<forall>k c. find (\<lambda>c. c_id c = k) (pending s) = Some c \<and> c_sid c = sid \<and>
                 c_stage c = AwaitHasEnoughSpace \<longrightarrow>
            storageStatus (settle_hasEnoughSpace k (Fulfilled True) s) =
              \<lparr>isOk = True, message = ''''\<rparr> \<and>
            calls (settle_hasEnoughSpace k (Fulfilled True) s) = calls s \<and>
            k \<notin> c_id ` set (pending (settle_hasEnoughSpace k (Fulfilled True) s)) \<and>
            calls (settle_hasEnoughSpace k (Fulfilled False) s) =
              calls s @ [(sid, GetFreeDiskStorage ''important'')] \<and>
            storageStatus (settle_hasEnoughSpace k (Fulfilled False) s) = storageStatus s \<and>
            find (\<lambda>c. c_id c = k) (pending (settle_hasEnoughSpace k (Fulfilled False) s)) =
              Some (c\<lparr>c_stage := AwaitFreeDisk\<rparr>)) \<and>
         (\<forall>k c freeDisk. find (\<lambda>c. c_id c = k) (pending s) = Some c \<and> c_sid c = sid \<and>
                 c_stage c = AwaitFreeDisk \<longrightarrow>
            storageStatus (settle_getFreeDiskStorage formatBytes k (Fulfilled freeDisk) s) =
              \<lparr>isOk = False,
               message = ''Storage low! Model '' @ formatBytes (sizeBytes (s_model se)) @
                 '' > '' @ formatBytes freeDisk @ '' free''\<rparr> \<and>
            calls (settle_getFreeDiskStorage formatBytes k (Fulfilled freeDisk) s) = calls s \<and>
            k \<notin> c_id ` set
              (pending (settle_getFreeDiskStorage formatBytes k (Fulfilled freeDisk) s))) \<and>
         (\<forall>e. nfree (step formatBytes e s) \<noteq> nfree s \<longrightarrow>
            (\<exists>k c. e = HasEnoughSpaceSettled k (Fulfilled False) \<and>
               find (\<lambda>c. c_id c = k) (pending s) = Some c \<and>
               c_stage c = AwaitHasEnoughSpace \<and> \<not> signal_aborted s (c_sid c)))"
proof -
  have na: "\<not> signal_aborted s sid" using assms(1,2) by (simp add: signal_aborted_def)
  have 1: "calls (checkStorage sid s) = calls s @ [(sid, HasEnoughSpace (s_model se))] \<and>
         pending (checkStorage sid s) =
           pending s @ [\<lparr>c_id = next_cid s, c_sid = sid, c_stage = AwaitHasEnoughSpace\<rparr>]"
    using assms by (simp add: checkStorage_def Let_def needs_no_check_def)
  have 2: "storageStatus (settle_hasEnoughSpace k (Fulfilled True) s) =
              \<lparr>isOk = True, message = ''''\<rparr> \<and>
            calls (settle_hasEnoughSpace k (Fulfilled True) s) = calls s \<and>
            k \<notin> c_id ` set (pending (settle_hasEnoughSpace k (Fulfilled True) s)) \<and>
            calls (settle_hasEnoughSpace k (Fulfilled False) s) =
              calls s @ [(sid, GetFreeDiskStorage ''important'')] \<and>
            storageStatus (settle_hasEnoughSpace k (Fulfilled False) s) = storageStatus s \<and>
            find (\<lambda>c. c_id c = k) (pending (settle_hasEnoughSpace k (Fulfilled False) s)) =
              Some (c\<lparr>c_stage := AwaitFreeDisk\<rparr>)"
    if f: "find (\<lambda>c. c_id c = k) (pending s) = Some c" and "c_sid c = sid"
      and st: "c_stage c = AwaitHasEnoughSpace" for k c
  proof -
    have ck: "c_id c = k" using f by (auto dest: find_in_pending)
    have nf: "find (\<lambda>c. c_id c = k) (filter (\<lambda>c. c_id c \<noteq> k) (pending s)) = None"
      by (simp add: find_None_iff)
    show ?thesis
      using settle_hasEnoughSpace_cases[OF f st] na that(2) ck nf
      by (auto simp: setStorageStatus_def statusOk_def unsuspend_def find_app)
  qed
  have 3: "storageStatus (settle_getFreeDiskStorage formatBytes k (Fulfilled freeDisk) s) =
              \<lparr>isOk = False,
               message = ''Storage low! Model '' @ formatBytes (sizeBytes (s_model se)) @
                 '' > '' @ formatBytes freeDisk @ '' free''\<rparr> \<and>
            calls (settle_getFreeDiskStorage formatBytes k (Fulfilled freeDisk) s) = calls s \<and>
            k \<notin> c_id ` set
              (pending (settle_getFreeDiskStorage formatBytes k (Fulfilled freeDisk) s))"
    if f: "find (\<lambda>c. c_id c = k) (pending s) = Some c" and "c_sid c = sid"
      and st: "c_stage c = AwaitFreeDisk" for k c freeDisk
    using settle_getFreeDiskStorage_cases[OF f st, of se formatBytes] assms(1,2) that(2)
    by (auto simp: setStorageStatus_def statusLow_def unsuspend_def)
  have 4: "\<exists>k c. e = HasEnoughSpaceSettled k (Fulfilled False) \<and>
               find (\<lambda>c. c_id c = k) (pending s) = Some c \<and>
               c_stage c = AwaitHasEnoughSpace \<and> \<not> signal_aborted s (c_sid c)"
    if "nfree (step formatBytes e s) \<noteq> nfree s" for e
  proof (cases e)
    case (HasEnoughSpaceSettled k r)
    with that nfree_settle_hasEnoughSpace[of k r s] show ?thesis by auto
  qed (use that in \<open>simp_all add: nfree_render nfree_unmount nfree_tick
        nfree_settle_getFreeDiskStorage\<close>)
  from 1 2 3 4 show ?thesis by blast
qed

theorem check_cycle_outcomes_witness:
  "sessions (run sampleFormat [Render remoteModel defaultOptions] init) 0 =
     Some \<lparr>s_model = remoteModel, s_periodic = True, s_interval = 10000, aborted = False,
           intervalId = Some 1\<rparr> \<and>
   storageStatus (run sampleFormat
     [Render remoteModel defaultOptions, HasEnoughSpaceSettled 0 (Fulfilled True)] init) =
     \<lparr>isOk = True, message = ''''\<rparr> \<and>
   storageStatus (run sampleFormat
     [Render remoteModel defaultOptions, HasEnoughSpaceSettled 0 (Fulfilled False),
      FreeDiskSettled 0 (Fulfilled 4000000000)] init) =
     \<lparr>isOk = False, message = ''Storage low! Model 5 GB > 4 GB free''\<rparr>"
  using check_cycle_outcomes[where formatBytes = sampleFormat
      and s = "run sampleFormat [Render remoteModel defaultOptions] init" and sid = 0
      and se = "\<lparr>s_model = remoteModel, s_periodic = True, s_interval = 10000,
        aborted = False, intervalId = Some 1\<rparr>"]
    check_cycle_outcomes[where formatBytes = sampleFormat
      and s = "run sampleFormat
        [Render remoteModel defaultOptions, HasEnoughSpaceSettled 0 (Fulfilled False)] init"
      and sid = 0
      and se = "\<lparr>s_model = remoteModel, s_periodic = True, s_interval = 10000,
        aborted = False, intervalId = Some 1\<rparr>"]
  by (simp add: model_defs sample_defs)

text \<open>
  C5. When the promise of \<open>hasEnoughSpace\<close> or of \<open>getFreeDiskStorage\<close> is rejected while the
  session of the waiting cycle is not aborted, the cycle ends by publishing exactly
  \<open>{isOk: false, message: 'Failed to check storage'}\<close>: one call of \<open>setStorageStatus\<close>, the
  cycle is no longer suspended, and nothing is added to the unhandled rejections. The
  promise returned by \<open>checkStorage\<close> is never rejected, whatever the settlement, and no
  run of the hook leaves an unhandled rejection.
\<close>

theorem failed_query_becomes_status:
  assumes "find (\<lambda>c. c_id c = k) (pending s) = Some c"
    and "\<not> signal_aborted s (c_sid c)"
  shows "(c_stage c = AwaitHasEnoughSpace \<longrightarrow>
            storageStatus (settle_hasEnoughSpace k Rejected s) =
              \<lparr>isOk = False, message = ''Failed to check storage''\<rparr> \<and>
            emits (settle_hasEnoughSpace k Rejected s) =
              emits s @ [(c_sid c, \<lparr>isOk = False, message = ''Failed to check storage''\<rparr>)] \<and>
            unhandled (settle_hasEnoughSpace k Rejected s) = unhandled s \<and>
            k \<notin> c_id ` set (pending (settle_hasEnoughSpace k Rejected s))) \<and>
         (c_stage c = AwaitFreeDisk \<longrightarrow>
            storageStatus (settle_getFreeDiskStorage formatBytes k Rejected s) =
              \<lparr>isOk = False, message = ''Failed to check storage''\<rparr> \<and>
            emits (settle_getFreeDiskStorage formatBytes k Rejected s) =
              emits s @ [(c_sid c, \<lparr>isOk = False, message = ''Failed to check storage''\<rparr>)] \<and>
            unhandled (settle_getFreeDiskStorage formatBytes k Rejected s) = unhandled s \<and>
            k \<notin> c_id ` set (pending (settle_getFreeDiskStorage formatBytes k Rejected s))) \<and>
         (\<forall>c' r s'. \<exists>s''. resume_hasEnoughSpace c' r s' = Inr s'') \<and>
         (\<forall>c' r s'. \<exists>s''. resume_getFreeDiskStorage formatBytes c' r s' = Inr s'') \<and>
         (\<forall>es. unhandled (run formatBytes es init) = [])"
proof -
  have a: "c_stage c = AwaitHasEnoughSpace \<Longrightarrow>
      settle_hasEnoughSpace k Rejected s =
        setStorageStatus (c_sid c) statusFailed
          ((unsuspend k s)\<lparr>console := console s @ [(c_sid c, SpaceCheckFailure)]\<rparr>)"
    using settle_hasEnoughSpace_cases[OF assms(1), of Rejected] assms(2) by simp
  have b: "c_stage c = AwaitFreeDisk \<Longrightarrow>
      settle_getFreeDiskStorage formatBytes k Rejected s =
        setStorageStatus (c_sid c) statusFailed
          ((unsuspend k s)\<lparr>console := console s @ [(c_sid c, FreeSpaceQueryFailure)]\<rparr>)"
    using assms
    by (simp add: settle_getFreeDiskStorage_def resume_defs unsuspend_def)
  have c: "\<exists>s''. resume_hasEnoughSpace c' r s' = Inr s''" for c' r s'
    by (simp add: resume_hasEnoughSpace_def try_catch_def split: sum.splits)
  have d: "\<exists>s''. resume_getFreeDiskStorage formatBytes c' r s' = Inr s''" for c' r s'
    by (simp add: resume_getFreeDiskStorage_def try_catch_def split: sum.splits)
  have e: "unhandled (run formatBytes es init) = []" for es
    by (simp add: unhandled_run init_def)
  from a have 1: "c_stage c = AwaitHasEnoughSpace \<longrightarrow>
            storageStatus (settle_hasEnoughSpace k Rejected s) =
              \<lparr>isOk = False, message = ''Failed to check storage''\<rparr> \<and>
            emits (settle_hasEnoughSpace k Rejected s) =
              emits s @ [(c_sid c, \<lparr>isOk = False, message = ''Failed to check storage''\<rparr>)] \<and>
            unhandled (settle_hasEnoughSpace k Rejected s) = unhandled s \<and>
            k \<notin> c_id ` set (pending (settle_hasEnoughSpace k Rejected s))"
    by (auto simp: setStorageStatus_def statusFailed_def unsuspend_def)
  from b have 2: "c_stage c = AwaitFreeDisk \<longrightarrow>
            storageStatus (settle_getFreeDiskStorage formatBytes k Rejected s) =
              \<lparr>isOk = False, message = ''Failed to check storage''\<rparr> \<and>
            emits (settle_getFreeDiskStorage formatBytes k Rejected s) =
              emits s @ [(c_sid c, \<lparr>isOk = False, message = ''Failed to check storage''\<rparr>)] \<and>
            unhandled (settle_getFreeDiskStorage formatBytes k Rejected s) = unhandled s \<and>
            k \<notin> c_id ` set (pending (settle_getFreeDiskStorage formatBytes k Rejected s))"
    by (auto simp: setStorageStatus_def statusFailed_def unsuspend_def)
  from 1 2 c d e show ?thesis by blast
qed

theorem failed_query_becomes_status_witness:
  "find (\<lambda>c. c_id c = 0) (pending (run sampleFormat [Render remoteModel defaultOptions] init)) =
     Some \<lparr>c_id = 0, c_sid = 0, c_stage = AwaitHasEnoughSpace\<rparr> \<and>
   \<not> signal_aborted (run sampleFormat [Render remoteModel defaultOptions] init) 0 \<and>
   storageStatus (settle_hasEnoughSpace 0 Rejected
     (run sampleFormat [Render remoteModel defaultOptions] init)) =
     \<lparr>isOk = False, message = ''Failed to check storage''\<rparr> \<and>
   find (\<lambda>c. c_id c = 0)
     (pending (run sampleFormat
        [Render remoteModel defaultOptions, HasEnoughSpaceSettled 0 (Fulfilled False)] init)) =
     Some \<lparr>c_id = 0, c_sid = 0, c_stage = AwaitFreeDisk\<rparr> \<and>
   storageStatus (settle_getFreeDiskStorage sampleFormat 0 Rejected
     (run sampleFormat
        [Render remoteModel defaultOptions, HasEnoughSpaceSettled 0 (Fulfilled False)] init)) =
     \<lparr>isOk = False, message = ''Failed to check storage''\<rparr>"
  using failed_query_becomes_status[where formatBytes = sampleFormat
      and s = "run sampleFormat [Render remoteModel defaultOptions] init"
      and k = 0 and c = "\<lparr>c_id = 0, c_sid = 0, c_stage = AwaitHasEnoughSpace\<rparr>"]
    failed_query_becomes_status[where formatBytes = sampleFormat
      and s = "run sampleFormat
        [Render remoteModel defaultOptions, HasEnoughSpaceSettled 0 (Fulfilled False)] init"
      and k = 0 and c = "\<lparr>c_id = 0, c_sid = 0, c_stage = AwaitFreeDisk\<rparr>"]
  by (simp add: model_defs sample_defs)

text \<open>
  C6. A session that is started with \<open>enablePeriodicCheck\<close> set to \<open>false\<close> gets no interval
  timer and invokes \<open>checkStorage\<close> exactly once, at its start: whatever happens afterwards
  (any number of milliseconds, settlements, later renders, the unmount), the number of its
  check cycles stays 1 and no timer ever belongs to it.
\<close>

theorem single_check_without_periodic:
  assumes "s0 = run formatBytes es0 init"
    and "enablePeriodicCheck opts = Some False"
    and "next_sid (render m opts s0) \<noteq> next_sid s0"
  shows "sessions (render m opts s0) (next_sid s0) =
           Some \<lparr>s_model = m, s_periodic = False,
                 s_interval = (case checkInterval opts of None \<Rightarrow> 10000 | Some n \<Rightarrow> n),
                 aborted = False, intervalId = None\<rparr> \<and>
         (\<forall>es. nchecks (next_sid s0) (run formatBytes es (render m opts s0)) = 1 \<and>
               (\<forall>t\<in>set (timers (run formatBytes es (render m opts s0))).
                  t_sid t \<noteq> next_sid s0))"
proof -
  let ?s1 = "render m opts s0"
  let ?sid = "next_sid s0"
  have per: "False = (case enablePeriodicCheck opts of None \<Rightarrow> True | Some b \<Rightarrow> b)"
    using assms(2) by simp
  from started_session[OF assms(3) per refl]
  have se: "sessions ?s1 ?sid =
           Some \<lparr>s_model = m, s_periodic = False,
                 s_interval = (case checkInterval opts of None \<Rightarrow> 10000 | Some n \<Rightarrow> n),
                 aborted = False, intervalId = None\<rparr>"
    by simp
  have i1: "inv_sessions ?s1" unfolding assms(1) reach_render by (rule inv_sessions_reach)
  have later: "nchecks ?sid (run formatBytes es ?s1) = 1 \<and>
               (\<forall>t\<in>set (timers (run formatBytes es ?s1)). t_sid t \<noteq> ?sid)" for es
  proof -
    let ?r = "run formatBytes es ?s1"
    have ir: "inv_sessions ?r" by (rule inv_sessions_run[OF i1])
    have cr: "inv_checks ?r" unfolding assms(1) reach_run_render by (rule inv_checks_reach)
    from session_stable_run[OF i1 se, of formatBytes es] obtain se' where
      se': "sessions ?r ?sid = Some se'" "\<not> s_periodic se'"
      by auto
    from cr se' have n: "nchecks ?sid ?r = 1" unfolding inv_checks_def by blast
    have "t_sid t \<noteq> ?sid" if "t \<in> set (timers ?r)" for t
    proof -
      from timer_session[OF ir that] obtain se'' where
        "sessions ?r (t_sid t) = Some se''" "s_periodic se''"
        by blast
      with se' show ?thesis by auto
    qed
    with n show ?thesis by blast
  qed
  from se later show ?thesis by blast
qed

theorem single_check_without_periodic_witness:
  "enablePeriodicCheck onceOptions = Some False \<and>
   next_sid (render remoteModel onceOptions init) \<noteq> next_sid init \<and>
   nchecks (next_sid init)
     (run sampleFormat (replicate 30000 Tick) (render remoteModel onceOptions init)) = 1 \<and>
   checks (run sampleFormat [Tick, Tick, Tick] (render remoteModel onceOptions init)) = [0]"
proof -
  have p0: "init = run sampleFormat [] init" by (simp add: run_def)
  have p2: "enablePeriodicCheck onceOptions = Some False" by (simp add: sample_defs)
  have p3: "next_sid (render remoteModel onceOptions init) \<noteq> next_sid init"
    by (simp add: model_defs sample_defs)
  note t = single_check_without_periodic[OF p0 p2 p3]
  from t have "nchecks (next_sid init)
     (run sampleFormat (replicate 30000 Tick) (render remoteModel onceOptions init)) = 1"
    by blast
  moreover have
    "checks (run sampleFormat [Tick, Tick, Tick] (render remoteModel onceOptions init)) = [0]"
    by (simp add: model_defs sample_defs)
  ultimately show ?thesis using p2 p3 by blast
qed

text \<open>
  C7, as stated, fails: the session invokes \<open>checkStorage\<close> once at its start and once on every
  firing of its timer, so with the default options one cycle has occurred when no time has
  passed, and two when 10000 ms have passed.
\<close>

theorem periodic_check_count_counterexample:
  "nchecks 0 (run sampleFormat (replicate (0 * 10000) Tick)
     (render remoteModel defaultOptions init)) = 1 \<and>
   nchecks 0 (run sampleFormat (replicate (0 * 10000) Tick)
     (render remoteModel defaultOptions init)) \<noteq> 0 \<and>
   nchecks 0 (run sampleFormat (replicate (1 * 10000) Tick)
     (render remoteModel defaultOptions init)) = 2 \<and>
   nchecks 0 (run sampleFormat (replicate (1 * 10000) Tick)
     (render remoteModel defaultOptions init)) \<noteq> 1"
proof -
  have p0: "init = run sampleFormat [] init" by (simp add: run_def)
  have z: "next_sid init = 0" by (simp add: init_def)
  have p2: "next_sid (render remoteModel defaultOptions init) \<noteq> next_sid init"
    by (simp add: model_defs sample_defs)
  have p3: "enablePeriodicCheck defaultOptions \<noteq> Some False" by (simp add: sample_defs)
  have p4: "checkInterval defaultOptions = None \<or> checkInterval defaultOptions = Some 10000"
    by (simp add: sample_defs)
  have q: "\<forall>e\<in>set (replicate n Tick). quiet e" for n by (simp add: quiet_def)
  have tk: "ticks (replicate n Tick) = n" for n by (simp add: ticks_def)
  have m0: "(0::nat) * 10000 div 10000 + 1 = 1" by simp
  have m1: "(1::nat) * 10000 div 10000 + 1 = 2" by simp
  have a: "nchecks 0 (run sampleFormat (replicate (0 * 10000) Tick)
     (render remoteModel defaultOptions init)) = 1"
    using started_check_count[OF p0 p2 p3 p4 q[of "0 * 10000"]]
    unfolding z tk m0 .
  have b: "nchecks 0 (run sampleFormat (replicate (1 * 10000) Tick)
     (render remoteModel defaultOptions init)) = 2"
    using started_check_count[OF p0 p2 p3 p4 q[of "1 * 10000"]]
    unfolding z tk m1 .
  show ?thesis unfolding a b by simp
qed

text \<open>
  C7, amended. A session that is started with periodic checking enabled and a check interval
  of 10000 ms (both are the defaults) has started exactly \<open>t div 10000 + 1\<close> check cycles
  when \<open>t\<close> milliseconds have passed since its start and the session is still mounted: the
  immediate one and one for every firing of the timer, at 10000, 20000, ... ms. So exactly
  \<open>N + 1\<close> check cycles have occurred once \<open>N * 10000\<close> ms have elapsed.
\<close>

theorem periodic_check_count:
  assumes "s0 = run formatBytes es0 init"
    and "next_sid (render m opts s0) \<noteq> next_sid s0"
    and "enablePeriodicCheck opts \<noteq> Some False"
    and "checkInterval opts = None \<or> checkInterval opts = Some 10000"
    and "\<forall>e\<in>set es. quiet e"
  shows "nchecks (next_sid s0) (run formatBytes es (render m opts s0)) =
           ticks es div 10000 + 1 \<and>
         (\<forall>N. ticks es = N * 10000 \<longrightarrow>
            nchecks (next_sid s0) (run formatBytes es (render m opts s0)) = N + 1)"
proof -
  have "nchecks (next_sid s0) (run formatBytes es (render m opts s0)) =
           ticks es div 10000 + 1"
    by (rule started_check_count[OF assms])
  then show ?thesis by simp
qed

theorem periodic_check_count_witness:
  "next_sid (render remoteModel defaultOptions init) \<noteq> next_sid init \<and>
   enablePeriodicCheck defaultOptions \<noteq> Some False \<and>
   checkInterval defaultOptions = None \<and>
   quiet Tick \<and> quiet (HasEnoughSpaceSettled 0 (Fulfilled True)) \<and>
   ticks (HasEnoughSpaceSettled 0 (Fulfilled True) # replicate 30000 Tick) = 30000 \<and>
   nchecks (next_sid init)
     (run sampleFormat (HasEnoughSpaceSettled 0 (Fulfilled True) # replicate 30000 Tick)
        (render remoteModel defaultOptions init)) = 4"
proof -
  have p0: "init = run sampleFormat [] init" by (simp add: run_def)
  have p2: "next_sid (render remoteModel defaultOptions init) \<noteq> next_sid init"
    by (simp add: model_defs sample_defs)
  have p3: "enablePeriodicCheck defaultOptions \<noteq> Some False" by (simp add: sample_defs)
  have p4: "checkInterval defaultOptions = None" by (simp add: sample_defs)
  have q1: "quiet Tick" "quiet (HasEnoughSpaceSettled 0 (Fulfilled True))"
    by (simp_all add: quiet_def)
  then have q: "\<forall>e\<in>set (HasEnoughSpaceSettled 0 (Fulfilled True) # replicate n Tick). quiet e"
    for n
    by simp
  have tk: "ticks (HasEnoughSpaceSettled 0 (Fulfilled True) # replicate n Tick) = n" for n
    by (simp add: ticks_def)
  have d: "(30000::nat) div 10000 + 1 = 4" by simp
  from p4 have p4': "checkInterval defaultOptions = None \<or>
      checkInterval defaultOptions = Some 10000"
    by simp
  have "nchecks (next_sid init)
     (run sampleFormat (HasEnoughSpaceSettled 0 (Fulfilled True) # replicate 30000 Tick)
        (render remoteModel defaultOptions init)) = 4"
    using periodic_check_count[OF p0 p2 p3 p4' q[of 30000], THEN conjunct1]
    unfolding tk d .
  with p2 p3 p4 q1 tk[of 30000] show ?thesis by blast
qed



text \<open>
  C9. A render never writes the published status, whether or not it replaces the session:
  the status after the render is the status before it, and it stays so for as long as no
  status update is published. In particular, after a render with a model that is
  downloaded, local or of origin \<open>LOCAL\<close>, and while every later render is with such a model
  too, no status update is published at all, so that the caller keeps observing the status
  last published for an earlier model.
\<close>

theorem status_survives_session_change:
  assumes "s = run formatBytes es init"
  shows "storageStatus (render m opts s) = storageStatus s \<and>
         emits (render m opts s) = emits s \<and>
         (\<forall>es'. emits (run formatBytes es' (render m opts s)) = emits s \<longrightarrow>
            storageStatus (run formatBytes es' (render m opts s)) = storageStatus s) \<and>
         (isDownloaded m \<or> isLocal m \<or> origin m = LOCAL \<longrightarrow>
            (\<forall>es'. (\<forall>e\<in>set es'. skip_event e) \<longrightarrow>
               storageStatus (run formatBytes es' (render m opts s)) = storageStatus s \<and>
               emits (run formatBytes es' (render m opts s)) = emits s))"
proof -
  let ?s' = "render m opts s"
  have i: "inv_sessions s" unfolding assms by (rule inv_sessions_reach)
  have c: "inv_cycles s" unfolding assms by (rule inv_cycles_reach)
  have i': "inv_sessions ?s'" using inv_sessions_step[OF i, of formatBytes "Render m opts"] by simp
  have c': "inv_cycles ?s'" using inv_cycles_step[OF i c, of formatBytes "Render m opts"] by simp
  note fr = render_frame[of m opts s]
  have 2: "storageStatus (run formatBytes es' ?s') = storageStatus s"
    if "emits (run formatBytes es' ?s') = emits s" for es'
  proof -
    from emits_bound_run[OF i', of 0 formatBytes es'] obtain zs where
      "emits (run formatBytes es' ?s') = emits ?s' @ zs"
      "storageStatus (run formatBytes es' ?s') =
         (if zs = [] then storageStatus ?s' else snd (last zs))"
      by auto
    with that fr show ?thesis by simp
  qed
  have 3: "storageStatus (run formatBytes es' ?s') = storageStatus s \<and>
           emits (run formatBytes es' ?s') = emits s"
    if "isDownloaded m \<or> isLocal m \<or> origin m = LOCAL" "\<forall>e\<in>set es'. skip_event e" for es'
  proof -
    from that(1) have "needs_no_check m" by (simp add: needs_no_check_def)
    from skip_run[OF i' c' render_skips[OF i this] that(2), of formatBytes] fr
    show ?thesis by simp
  qed
  from fr 2 3 show ?thesis by blast
qed

theorem status_survives_session_change_witness:
  "storageStatus (run sampleFormat
     [Render remoteModel fastOptions, HasEnoughSpaceSettled 0 (Fulfilled False),
      FreeDiskSettled 0 (Fulfilled 4000000000)] init) =
     \<lparr>isOk = False, message = ''Storage low! Model 5 GB > 4 GB free''\<rparr> \<and>
   isDownloaded downloadedModel \<and>
   skip_event Tick \<and>
   storageStatus (run sampleFormat [Tick, Tick, Tick]
     (render downloadedModel fastOptions
        (run sampleFormat
           [Render remoteModel fastOptions, HasEnoughSpaceSettled 0 (Fulfilled False),
            FreeDiskSettled 0 (Fulfilled 4000000000)] init))) =
     \<lparr>isOk = False, message = ''Storage low! Model 5 GB > 4 GB free''\<rparr>"
  using status_survives_session_change[where formatBytes = sampleFormat
      and es = "[Render remoteModel fastOptions, HasEnoughSpaceSettled 0 (Fulfilled False),
            FreeDiskSettled 0 (Fulfilled 4000000000)]"
      and s = "run sampleFormat
           [Render remoteModel fastOptions, HasEnoughSpaceSettled 0 (Fulfilled False),
            FreeDiskSettled 0 (Fulfilled 4000000000)] init"
      and m = downloadedModel and opts = fastOptions]
  by (simp add: model_defs sample_defs skip_event_def)

text \<open>
  C10. When the promise of \<open>hasEnoughSpace\<close> is fulfilled with \<open>false\<close> for a cycle whose
  session is aborted, the cycle ends at once: it is no longer suspended, and the state is
  otherwise as it was, so \<open>getFreeDiskStorage\<close> is not called. In every run of the hook the
  list of queries made by an aborted session never grows again.
\<close>

theorem cancelled_cycle_issues_no_query:
  assumes "s = run formatBytes es init"
    and "find (\<lambda>c. c_id c = k) (pending s) = Some c"
    and "c_stage c = AwaitHasEnoughSpace"
    and "signal_aborted s (c_sid c)"
  shows "settle_hasEnoughSpace k (Fulfilled False) s = unsuspend k s \<and>
         calls (settle_hasEnoughSpace k (Fulfilled False) s) = calls s \<and>
         (\<forall>es'. calls_of (c_sid c) (run formatBytes es' s) = calls_of (c_sid c) s)"
proof -
  have "settle_hasEnoughSpace k (Fulfilled False) s = unsuspend k s"
    using settle_hasEnoughSpace_cases[OF assms(2,3)] assms(4) by simp
  moreover have "calls (unsuspend k s) = calls s" by (simp add: unsuspend_def)
  moreover have "inv_sessions s" unfolding assms(1) by (rule inv_sessions_reach)
  then have "\<forall>es'. calls_of (c_sid c) (run formatBytes es' s) = calls_of (c_sid c) s"
    using dead_frozen_run[OF _ assms(4)] by blast
  ultimately show ?thesis by simp
qed

theorem cancelled_cycle_issues_no_query_witness:
  "find (\<lambda>c. c_id c = 0)
     (pending (run sampleFormat [Render remoteModel defaultOptions, Unmount] init)) =
     Some \<lparr>c_id = 0, c_sid = 0, c_stage = AwaitHasEnoughSpace\<rparr> \<and>
   signal_aborted (run sampleFormat [Render remoteModel defaultOptions, Unmount] init) 0 \<and>
   calls (settle_hasEnoughSpace 0 (Fulfilled False)
     (run sampleFormat [Render remoteModel defaultOptions, Unmount] init)) =
     [(0, HasEnoughSpace remoteModel)]"
  using cancelled_cycle_issues_no_query[where formatBytes = sampleFormat
      and es = "[Render remoteModel defaultOptions, Unmount]"
      and s = "run sampleFormat [Render remoteModel defaultOptions, Unmount] init"
      and k = 0 and c = "\<lparr>c_id = 0, c_sid = 0, c_stage = AwaitHasEnoughSpace\<rparr>"]
  by (simp add: model_defs sample_defs)

end
